theory Spec2Isabelle
  imports Main "HOL-Library.Option_ord"
begin

section \<open>CharZapper: the snippet engine of \<^verbatim>\<open>charzapper.py\<close>\<close>

text \<open>
  The engine lives in the class \<^verbatim>\<open>App\<close>: \<^verbatim>\<open>build_dictionary\<close> builds the lookup
  tables from the parsed dictionary, \<^verbatim>\<open>update_text\<close> resolves the typed text into
  matches, the key handler of \<^verbatim>\<open>run\<close> moves the selection and \<^verbatim>\<open>submit\<close> delivers
  the selected match. Rendering, fonts and the clock are left out; the clipboard and
  standard output are fields of the state.

  Strings are \<^typ>\<open>string\<close>. Python's \<^verbatim>\<open>str\<close> is a sequence of Unicode code points;
  the model gives the ASCII letters their case mapping and the ASCII white space its
  class, and treats every other character as uncased and not white space.
\<close>

subsection \<open>Python's exceptions\<close>

datatype error = KeyError | AssertionError | IndexError

subsection \<open>String methods\<close>

definition upper_letters :: string where
  "upper_letters = ''ABCDEFGHIJKLMNOPQRSTUVWXYZ''"

definition lower_letters :: string where
  "lower_letters = ''abcdefghijklmnopqrstuvwxyz''"

text \<open>The characters for which \<^verbatim>\<open>str.isspace\<close> holds, among the ASCII ones.\<close>

definition whitespace :: string where
  "whitespace = [CHR 0x09, CHR 0x0A, CHR 0x0B, CHR 0x0C, CHR 0x0D,
                 CHR 0x1C, CHR 0x1D, CHR 0x1E, CHR 0x1F, CHR 0x20]"

definition isspace :: "char \<Rightarrow> bool" where
  "isspace c = (c \<in> set whitespace)"

definition is_upper_char :: "char \<Rightarrow> bool" where
  "is_upper_char c = (c \<in> set upper_letters)"

definition is_lower_char :: "char \<Rightarrow> bool" where
  "is_lower_char c = (c \<in> set lower_letters)"

definition lower_char :: "char \<Rightarrow> char" where
  "lower_char c = (case map_of (zip upper_letters lower_letters) c of
                     Some d \<Rightarrow> d | None \<Rightarrow> c)"

definition upper_char :: "char \<Rightarrow> char" where
  "upper_char c = (case map_of (zip lower_letters upper_letters) c of
                     Some d \<Rightarrow> d | None \<Rightarrow> c)"

text \<open>\<^verbatim>\<open>s.lower()\<close> and \<^verbatim>\<open>s.upper()\<close>.\<close>

definition lower :: "string \<Rightarrow> string" where
  "lower s = map lower_char s"

definition upper :: "string \<Rightarrow> string" where
  "upper s = map upper_char s"

text \<open>
  \<^verbatim>\<open>s.isupper()\<close> and \<^verbatim>\<open>s.islower()\<close>: there is a cased character and no cased
  character of the other case.
\<close>

definition isupper :: "string \<Rightarrow> bool" where
  "isupper s = (list_ex is_upper_char s \<and> \<not> list_ex is_lower_char s)"

definition islower :: "string \<Rightarrow> bool" where
  "islower s = (list_ex is_lower_char s \<and> \<not> list_ex is_upper_char s)"

text \<open>\<^verbatim>\<open>s.strip()\<close>: white space removed at both ends.\<close>

definition strip :: "string \<Rightarrow> string" where
  "strip s = rev (dropWhile isspace (rev (dropWhile isspace s)))"

text \<open>
  \<^verbatim>\<open>s.split()\<close>: the maximal runs of characters that are not white space, in order.
  The first argument is the run read so far.
\<close>

fun split_from :: "string \<Rightarrow> string \<Rightarrow> string list" where
  "split_from cur [] = (if cur = [] then [] else [cur])"
| "split_from cur (c # cs) =
     (if isspace c then (if cur = [] then split_from [] cs else cur # split_from [] cs)
      else split_from (cur @ [c]) cs)"

definition split :: "string \<Rightarrow> string list" where
  "split s = split_from [] s"

text \<open>
  \<^verbatim>\<open>xs[i]\<close> on a list or a string. An index from \<open>-len\<close> up to \<open>-1\<close> reads from the
  end; outside \<open>-len .. len - 1\<close> the read raises.
\<close>

definition getitem :: "'a list \<Rightarrow> int \<Rightarrow> error + 'a" where
  "getitem xs i =
     (if 0 \<le> i \<and> i < int (length xs) then Inr (xs ! nat i)
      else if i < 0 \<and> - int (length xs) \<le> i then Inr (xs ! nat (int (length xs) + i))
      else Inl IndexError)"

subsection \<open>The dictionary and its lookup tables\<close>

text \<open>
  One record of \<^verbatim>\<open>snippets.yaml\<close>, keyed by its word. A field is \<open>None\<close> when the
  key is absent, which is what raises \<^verbatim>\<open>KeyError\<close> in \<^verbatim>\<open>data['tags']\<close>.
\<close>

record entry =
  name :: "string option"
  tags :: "string list option"
  chars :: "string list option"

type_synonym dictionary = "(string \<times> entry) list"

text \<open>
  A Python \<^verbatim>\<open>set\<close> of words is a list without repetition; the order of the list
  stands for the order in which the set is iterated, which Python leaves open. The
  resolver's theorems hold for every table, so for every such order.
\<close>

record tables =
  tags_tab :: "string \<rightharpoonup> string list"
  chars_tab :: "string \<rightharpoonup> string list"
  lowercase_names :: "string \<rightharpoonup> string"
  names :: "string \<rightharpoonup> string"
  lowercase_snippets :: "string \<rightharpoonup> string"

definition empty_tables :: tables where
  "empty_tables = \<lparr>tags_tab = Map.empty, chars_tab = Map.empty,
     lowercase_names = Map.empty, names = Map.empty, lowercase_snippets = Map.empty\<rparr>"

text \<open>\<^verbatim>\<open>s.add(x)\<close>.\<close>

definition set_add :: "'a \<Rightarrow> 'a list \<Rightarrow> 'a list" where
  "set_add x xs = (if x \<in> set xs then xs else xs @ [x])"

text \<open>
  \<^verbatim>\<open>try: d[k].add(w)  except KeyError: d[k] = set([w])\<close>
\<close>

definition add_to :: "(string \<rightharpoonup> string list) \<Rightarrow> string \<Rightarrow> string \<Rightarrow> (string \<rightharpoonup> string list)" where
  "add_to d k w = (case d k of Some s \<Rightarrow> d(k \<mapsto> set_add w s) | None \<Rightarrow> d(k \<mapsto> [w]))"

text \<open>The body of the loop of \<^verbatim>\<open>build_dictionary\<close> for one item of the dictionary.\<close>

definition add_entry :: "tables \<Rightarrow> string \<times> entry \<Rightarrow> error + tables" where
  "add_entry t item =
     (let word = fst item; data = snd item;
          lowercase_word = lower word;
          t1 = t\<lparr>lowercase_snippets := (lowercase_snippets t)(lowercase_word \<mapsto> word)\<rparr>;
          tag_data = (case tags data of Some ts \<Rightarrow> ts | None \<Rightarrow> []);
          t2 = t1\<lparr>tags_tab := fold (\<lambda>tag d. add_to d tag lowercase_word) tag_data (tags_tab t1)\<rparr>;
          char_data = (case chars data of Some cs \<Rightarrow> cs | None \<Rightarrow> []);
          t3 = t2\<lparr>chars_tab := fold (\<lambda>ch d. add_to d ch lowercase_word) char_data (chars_tab t2)\<rparr>
      in case name data of
           None \<Rightarrow> Inl KeyError
         | Some nm \<Rightarrow>
             if nm = [] then Inl AssertionError
             else let lowercase_name = lower nm in
               if lowercase_name = [] then Inl AssertionError
               else Inr (t3\<lparr>names := (names t3)(nm \<mapsto> lowercase_word),
                            lowercase_names := (lowercase_names t3)(lowercase_name \<mapsto> lowercase_word)\<rparr>))"

fun build_loop :: "tables \<Rightarrow> dictionary \<Rightarrow> error + tables" where
  "build_loop t [] = Inr t"
| "build_loop t (item # items) =
     (case add_entry t item of Inl e \<Rightarrow> Inl e | Inr t' \<Rightarrow> build_loop t' items)"

definition build_dictionary :: "dictionary \<Rightarrow> error + tables" where
  "build_dictionary d = build_loop empty_tables d"

subsection \<open>The state of the application\<close>

text \<open>
  The attributes of \<^verbatim>\<open>App\<close> that the engine reads or writes. \<^verbatim>\<open>self.done\<close> is
  \<open>is_done\<close>. The two casing flags do not exist before the first resolution
  that reaches them; nothing reads them before they are written.
\<close>

record app =
  input_text :: string
  best_match :: "string option"
  matches :: "string list"
  matches_shift :: "string list"
  shift :: bool
  selection :: int
  is_done :: bool
  redraw_screen :: bool
  tag_matches :: "(string \<times> int) list"
  char_matches :: "(string \<times> int) list"
  has_leading_uppercase :: bool
  is_all_lowercase :: bool
  clipboard :: string
  stdout :: "string list"

text \<open>The state that \<^verbatim>\<open>__init__\<close> leaves.\<close>

definition init_app :: app where
  "init_app = \<lparr>input_text = [], best_match = None, matches = [], matches_shift = [],
     shift = False, selection = 0, is_done = False, redraw_screen = True,
     tag_matches = [], char_matches = [], has_leading_uppercase = False,
     is_all_lowercase = False, clipboard = [], stdout = []\<rparr>"

subsection \<open>Resolution: \<^verbatim>\<open>update_text\<close>\<close>

definition MAX_MATCHES :: nat where
  "MAX_MATCHES = 10"

text \<open>
  The counters \<^verbatim>\<open>tag_matches\<close> and \<^verbatim>\<open>char_matches\<close> are dictionaries that are
  iterated, so they are association lists in insertion order.
  \<^verbatim>\<open>try: d[k] += 1  except KeyError: d[k] = 1\<close>
\<close>

fun incr :: "(string \<times> int) list \<Rightarrow> string \<Rightarrow> (string \<times> int) list" where
  "incr [] k = [(k, 1)]"
| "incr ((k', n) # d) k = (if k' = k then (k', n + 1) # d else (k', n) # incr d k)"

text \<open>The loop over the words of the input that counts tags.\<close>

definition tag_loop :: "tables \<Rightarrow> string list \<Rightarrow> (string \<times> int) list \<Rightarrow> (string \<times> int) list" where
  "tag_loop t words tm =
     fold (\<lambda>word tm. case tags_tab t word of
                        Some snippets \<Rightarrow> fold (\<lambda>snippet tm. incr tm snippet) snippets tm
                      | None \<Rightarrow> tm) words tm"

text \<open>
  The body of the loop over the characters of a word: the state is
  \<^verbatim>\<open>used_chars\<close> and \<^verbatim>\<open>char_matches\<close>. The character is marked used inside the
  loop over its snippets.
\<close>

definition char_step :: "tables \<Rightarrow> char \<Rightarrow> char set \<times> (string \<times> int) list \<Rightarrow> char set \<times> (string \<times> int) list" where
  "char_step t ch st =
     (if ch \<in> fst st then st
      else case chars_tab t [ch] of
             Some snippets \<Rightarrow>
               fold (\<lambda>snippet st. (insert ch (fst st), incr (snd st) snippet)) snippets st
           | None \<Rightarrow> st)"

definition char_loop :: "tables \<Rightarrow> string list \<Rightarrow> char set \<times> (string \<times> int) list \<Rightarrow> char set \<times> (string \<times> int) list" where
  "char_loop t words st = fold (\<lambda>word st. fold (char_step t) word st) words st"

text \<open>
  \<^verbatim>\<open>sorted(d, key=d.get)[:MAX_MATCHES]\<close>: the keys in ascending order of their
  counters, keys with equal counters in the dictionary's order (both sorts are stable).
\<close>

definition ranked :: "(string \<times> int) list \<Rightarrow> string list" where
  "ranked d = take MAX_MATCHES (sort_key (map_of d) (map fst d))"

text \<open>
  The loop \<^verbatim>\<open>for i in range(len(self.matches))\<close> that follows the tag and the
  character strategy. The state is \<^verbatim>\<open>(matches, matches_shift)\<close>;
  \<^verbatim>\<open>matches_shift\<close> starts as \<^verbatim>\<open>[None] * len(self.matches)\<close>, here a list of empty
  strings, and every position of it is written.
\<close>

definition case_step :: "bool \<Rightarrow> bool \<Rightarrow> nat \<Rightarrow> string list \<times> string list \<Rightarrow> string list \<times> string list" where
  "case_step hlu ial i st =
     (let ms = fst st;
          mss = (snd st)[i := upper (ms ! i)]
      in if hlu then (ms[i := mss ! i], mss)
         else if ial then (ms[i := lower (ms ! i)], mss)
         else (ms, mss))"

definition case_loop :: "bool \<Rightarrow> bool \<Rightarrow> string list \<Rightarrow> string list \<times> string list" where
  "case_loop hlu ial ms =
     fold (case_step hlu ial) [0..<length ms] (ms, replicate (length ms) [])"

definition set_ranked :: "app \<Rightarrow> (string \<times> int) list \<Rightarrow> app" where
  "set_ranked s d =
     (let r = case_loop (has_leading_uppercase s) (is_all_lowercase s) (ranked d)
      in s\<lparr>matches := fst r, matches_shift := snd r\<rparr>)"

text \<open>What both exact strategies do with the word they found.\<close>

definition set_exact :: "app \<Rightarrow> string \<Rightarrow> app" where
  "set_exact s w =
     (let best_match_shift = upper w;
          best_match' = (if has_leading_uppercase s then best_match_shift else w)
      in s\<lparr>matches := [best_match'], matches_shift := [best_match_shift]\<rparr>)"

text \<open>
  \<^verbatim>\<open>update_text\<close> returns \<^verbatim>\<open>None\<close> (blank input), \<^verbatim>\<open>True\<close> (a match) or
  \<^verbatim>\<open>False\<close>, and the new state. The stripped text is tested for blankness only: the
  text that is looked up and split is \<^verbatim>\<open>self.input_text.lower()\<close>.
\<close>

definition reset_matches :: "app \<Rightarrow> app" where
  "reset_matches s = s\<lparr>redraw_screen := True, tag_matches := [], char_matches := [],
     best_match := None, matches := [], shift := False, selection := 0,
     matches_shift := []\<rparr>"

definition update_text :: "tables \<Rightarrow> app \<Rightarrow> error + (bool option \<times> app)" where
  "update_text t s =
     (let s0 = reset_matches s;
          stripped = strip (input_text s0)
      in if stripped = [] then Inr (None, s0)
         else case getitem (input_text s0) 0 of
           Inl e \<Rightarrow> Inl e
         | Inr c0 \<Rightarrow>
             let s1 = s0\<lparr>has_leading_uppercase := isupper [c0],
                         is_all_lowercase := islower (input_text s0)\<rparr>;
                 lowered = lower (input_text s1)
             in case lowercase_snippets t lowered of
                  Some w \<Rightarrow> Inr (Some True, set_exact s1 w)
                | None \<Rightarrow>
                   (case lowercase_names t lowered of
                      Some w \<Rightarrow> Inr (Some True, set_exact s1 w)
                    | None \<Rightarrow>
                       let words = split lowered;
                           s2 = s1\<lparr>tag_matches := tag_loop t words (tag_matches s1)\<rparr>
                       in if tag_matches s2 \<noteq> [] then
                            Inr (Some True, set_ranked s2 (tag_matches s2))
                          else
                            let s3 = s2\<lparr>char_matches :=
                                       snd (char_loop t words ({}, char_matches s2))\<rparr>
                            in if char_matches s3 \<noteq> [] then
                                 Inr (Some True, set_ranked s3 (char_matches s3))
                               else Inr (Some False, s3)))"

subsection \<open>Submitting, cancelling and the keys\<close>

text \<open>\<^verbatim>\<open>submit\<close>: the selected match goes to the clipboard and to standard output.\<close>

definition submit :: "app \<Rightarrow> error + app" where
  "submit s =
     (case (if shift s then getitem (matches_shift s) (selection s)
            else getitem (matches s) (selection s)) of
        Inl e \<Rightarrow> Inl e
      | Inr result \<Rightarrow>
          Inr (s\<lparr>clipboard := result, is_done := True, stdout := stdout s @ [result]\<rparr>))"

definition cancel :: "app \<Rightarrow> app" where
  "cancel s = s\<lparr>is_done := True\<rparr>"

datatype key = K_ESCAPE | K_RSHIFT | K_LSHIFT | K_BACKSPACE | K_RETURN | K_TAB
  | K_LEFT | K_RIGHT | K_OTHER

text \<open>An event of the queue; a key press carries \<^verbatim>\<open>event.unicode\<close>.\<close>

datatype event = QUIT | KEYDOWN key string | KEYUP key | OTHER

definition select_prev :: "app \<Rightarrow> app" where
  "select_prev s = s\<lparr>selection := (selection s - 1) mod int (length (matches s))\<rparr>"

definition select_next :: "app \<Rightarrow> app" where
  "select_next s = s\<lparr>selection := (selection s + 1) mod int (length (matches s))\<rparr>"

text \<open>The body of the event loop of \<^verbatim>\<open>run\<close> for one event.\<close>

fun handle_event :: "tables \<Rightarrow> event \<Rightarrow> app \<Rightarrow> error + app" where
  "handle_event t QUIT s = Inr (s\<lparr>is_done := True\<rparr>)"
| "handle_event t (KEYDOWN k u) s =
     (if k = K_ESCAPE then Inr (cancel s)
      else if k = K_RSHIFT \<or> k = K_LSHIFT then Inr (s\<lparr>shift := True, redraw_screen := True\<rparr>)
      else if k = K_BACKSPACE then
        map_sum id snd (update_text t (s\<lparr>input_text := butlast (input_text s)\<rparr>))
      else if k = K_RETURN then submit s
      else if k = K_TAB then
        (if matches s \<noteq> [] then
           Inr ((if shift s then select_prev s else select_next s)\<lparr>redraw_screen := True\<rparr>)
         else Inr s)
      else if k = K_LEFT then
        (if matches s \<noteq> [] then Inr ((select_prev s)\<lparr>redraw_screen := True\<rparr>) else Inr s)
      else if k = K_RIGHT then
        (if matches s \<noteq> [] then Inr ((select_next s)\<lparr>redraw_screen := True\<rparr>) else Inr s)
      else map_sum id snd (update_text t (s\<lparr>input_text := input_text s @ u\<rparr>)))"
| "handle_event t (KEYUP k) s =
     (if k = K_RSHIFT \<or> k = K_LSHIFT then Inr (s\<lparr>shift := False, redraw_screen := True\<rparr>)
      else Inr s)"
| "handle_event t OTHER s = Inr s"

subsection \<open>Names for what the properties speak about\<close>

text \<open>\<^verbatim>\<open>d.get(k, 0)\<close> on a counter dictionary.\<close>

definition counter :: "(string \<times> int) list \<Rightarrow> string \<Rightarrow> int" where
  "counter d k = (case map_of d k of Some n \<Rightarrow> n | None \<Rightarrow> 0)"

text \<open>The set \<^verbatim>\<open>self.tags[word]\<close>, empty when the key is absent; the same for a character.\<close>

definition tagged :: "tables \<Rightarrow> string \<Rightarrow> string list" where
  "tagged t word = (case tags_tab t word of Some snippets \<Rightarrow> snippets | None \<Rightarrow> [])"

definition charred :: "tables \<Rightarrow> char \<Rightarrow> string list" where
  "charred t ch = (case chars_tab t [ch] of Some snippets \<Rightarrow> snippets | None \<Rightarrow> [])"

text \<open>The counters that the two loops of \<^verbatim>\<open>update_text\<close> compute for a raw input.\<close>

definition tag_counts :: "tables \<Rightarrow> string \<Rightarrow> (string \<times> int) list" where
  "tag_counts t raw = tag_loop t (split (lower raw)) []"

definition char_counts :: "tables \<Rightarrow> string \<Rightarrow> (string \<times> int) list" where
  "char_counts t raw = snd (char_loop t (split (lower raw)) ({}, []))"

text \<open>The state in which \<^verbatim>\<open>update_text\<close> runs its strategies on a non-blank input.\<close>

definition classified :: "app \<Rightarrow> app" where
  "classified s = (reset_matches s)\<lparr>
     has_leading_uppercase := is_upper_char (hd (input_text s)),
     is_all_lowercase := islower (input_text s)\<rparr>"

text \<open>The casing of a counted candidate, as the loop after the two counting strategies does it.\<close>

definition cased :: "bool \<Rightarrow> bool \<Rightarrow> string \<Rightarrow> string" where
  "cased hlu ial c = (if hlu then upper c else if ial then lower c else c)"

text \<open>Every set of the two tables is iterated without repetition.\<close>

definition sets_distinct :: "tables \<Rightarrow> bool" where
  "sets_distinct t = (\<forall>word ch. distinct (tagged t word) \<and> distinct (charred t ch))"

text \<open>
  Starting the application on a dictionary and typing a text: the matches and
  their shifted forms after \<^verbatim>\<open>update_text\<close>.
\<close>

definition run_resolve :: "dictionary \<Rightarrow> string \<Rightarrow> error + string list \<times> string list" where
  "run_resolve d raw =
     (case build_dictionary d of
        Inl e \<Rightarrow> Inl e
      | Inr t \<Rightarrow>
         (case update_text t (init_app\<lparr>input_text := raw\<rparr>) of
            Inl e \<Rightarrow> Inl e
          | Inr rs \<Rightarrow> Inr (matches (snd rs), matches_shift (snd rs))))"

text \<open>The tables of a dictionary that builds (the empty tables when it does not).\<close>

definition tables_of :: "dictionary \<Rightarrow> tables" where
  "tables_of d = (case build_dictionary d of Inr t \<Rightarrow> t | Inl e \<Rightarrow> empty_tables)"

subsection \<open>Example dictionaries\<close>

definition dict_tm :: dictionary where
  "dict_tm = [(''tm'', \<lparr>name = Some ''trademark'', tags = None, chars = None\<rparr>)]"

definition dict_Pi :: dictionary where
  "dict_Pi = [(''Pi'', \<lparr>name = Some ''circle'', tags = Some [''greek''], chars = Some [''p'']\<rparr>)]"

text \<open>
  The text \<^verbatim>\<open>pi\<close> is a word, a name, a tag and two characters of this dictionary;
  \<^verbatim>\<open>euler\<close> is a name and a tag, and has a character.
\<close>

definition dict_overlap :: dictionary where
  "dict_overlap =
     [(''pi'', \<lparr>name = Some ''ratio'', tags = None, chars = None\<rparr>),
      (''tau'', \<lparr>name = Some ''pi'', tags = None, chars = None\<rparr>),
      (''e'', \<lparr>name = Some ''euler'', tags = Some [''pi''], chars = Some [''p'', ''i'']\<rparr>),
      (''phi'', \<lparr>name = Some ''golden'', tags = Some [''euler''], chars = Some [''e'']\<rparr>)]"

definition dict_AB :: dictionary where
  "dict_AB =
     [(''A'', \<lparr>name = Some ''first'', tags = Some [''x'', ''y''], chars = None\<rparr>),
      (''B'', \<lparr>name = Some ''second'', tags = Some [''x''], chars = None\<rparr>)]"

definition dict_BA :: dictionary where
  "dict_BA =
     [(''B'', \<lparr>name = Some ''second'', tags = Some [''x''], chars = None\<rparr>),
      (''A'', \<lparr>name = Some ''first'', tags = Some [''x'', ''y''], chars = None\<rparr>)]"

definition dict_xy :: dictionary where
  "dict_xy =
     [(''A'', \<lparr>name = Some ''first'', tags = Some [''x''], chars = None\<rparr>),
      (''B'', \<lparr>name = Some ''second'', tags = Some [''y''], chars = None\<rparr>)]"

definition dict_A :: dictionary where
  "dict_A = [(''A'', \<lparr>name = Some ''first'', tags = Some [''x''], chars = Some [''a'']\<rparr>)]"

text \<open>A state with three matches, for the selection.\<close>

definition three :: app where
  "three = init_app\<lparr>matches := [''a'', ''b'', ''c''], matches_shift := [''A'', ''B'', ''C'']\<rparr>"

subsection \<open>The specification's wording, for comparison\<close>

text \<open>
  The primary form as the specification words it for every strategy: upper case when
  the first character of the raw input is an upper-case letter, else lower case when the
  raw input has no upper-case letter, else unchanged.
\<close>

definition claimed_primary :: "string \<Rightarrow> string \<Rightarrow> string" where
  "claimed_primary raw c =
     (if is_upper_char (hd raw) then upper c
      else if \<not> list_ex is_upper_char raw then lower c
      else c)"

text \<open>
  The tag counter as the specification words it: one increment for each distinct
  word of the lowered trimmed input that the entry declares as a tag.
\<close>

definition claimed_tag_counter :: "tables \<Rightarrow> string \<Rightarrow> string \<Rightarrow> int" where
  "claimed_tag_counter t raw e =
     int (length (filter (\<lambda>w. e \<in> set (tagged t w)) (remdups (split (lower (strip raw))))))"

section \<open>Properties\<close>

subsection \<open>Strings and the first character\<close>

lemma upper_not_lower: "is_upper_char c \<Longrightarrow> \<not> is_lower_char c"
  by (auto simp: is_upper_char_def is_lower_char_def upper_letters_def lower_letters_def)

lemma isupper_single: "isupper [c] = is_upper_char c"
  by (auto simp: isupper_def dest: upper_not_lower)

lemma strip_Nil: "strip [] = []"
  by (simp add: strip_def)

lemma getitem_first: "raw \<noteq> [] \<Longrightarrow> getitem raw 0 = Inr (hd raw)"
  by (cases raw) (simp_all add: getitem_def)

lemma nonblank_nonempty: "strip raw \<noteq> [] \<Longrightarrow> raw \<noteq> []"
  using strip_Nil by blast

subsection \<open>The paths of \<^verbatim>\<open>update_text\<close>\<close>

lemma update_text_blank:
  "strip (input_text s) = [] \<Longrightarrow> update_text t s = Inr (None, reset_matches s)"
  by (simp add: update_text_def reset_matches_def)

text \<open>
  On a non-blank input the first character is there to be read, and the four
  strategies follow one another.
\<close>

lemma update_text_nonblank:
  assumes "strip (input_text s) \<noteq> []"
  shows "update_text t s =
     (case lowercase_snippets t (lower (input_text s)) of
        Some w \<Rightarrow> Inr (Some True, set_exact (classified s) w)
      | None \<Rightarrow>
         (case lowercase_names t (lower (input_text s)) of
            Some w \<Rightarrow> Inr (Some True, set_exact (classified s) w)
          | None \<Rightarrow>
             if tag_counts t (input_text s) \<noteq> [] then
               Inr (Some True,
                    set_ranked ((classified s)\<lparr>tag_matches := tag_counts t (input_text s)\<rparr>)
                      (tag_counts t (input_text s)))
             else if char_counts t (input_text s) \<noteq> [] then
               Inr (Some True,
                    set_ranked ((classified s)\<lparr>tag_matches := tag_counts t (input_text s),
                        char_matches := char_counts t (input_text s)\<rparr>)
                      (char_counts t (input_text s)))
             else Inr (Some False, (classified s)\<lparr>tag_matches := tag_counts t (input_text s),
                        char_matches := char_counts t (input_text s)\<rparr>)))"
proof -
  have ne: "input_text s \<noteq> []" using assms by (rule nonblank_nonempty)
  have g: "getitem (input_text s) 0 = Inr (hd (input_text s))"
    using ne by (simp add: getitem_first)
  show ?thesis
    unfolding update_text_def Let_def
    using assms
    by (simp add: g isupper_single classified_def tag_counts_def char_counts_def
             reset_matches_def split: option.splits)
qed

lemma update_text_succeeds: "\<exists>r s'. update_text t s = Inr (r, s')"
proof (cases "strip (input_text s) = []")
  case True
  then show ?thesis by (simp add: update_text_blank)
next
  case False
  then show ?thesis by (simp add: update_text_nonblank split: option.splits)
qed

lemma selection_reset: "update_text t s = Inr (r, s') \<Longrightarrow> selection s' = 0"
proof (cases "strip (input_text s) = []")
  case True
  assume "update_text t s = Inr (r, s')"
  with True show ?thesis by (auto simp: update_text_blank reset_matches_def)
next
  case False
  assume "update_text t s = Inr (r, s')"
  with False show ?thesis
    by (auto simp: update_text_nonblank classified_def reset_matches_def set_exact_def
          set_ranked_def Let_def split: option.splits if_splits)
qed

subsection \<open>Submitting without a match\<close>

text \<open>
  Claim C1. Submitting with an empty list of matches is to give an empty result or
  be refused, never to crash. \<^verbatim>\<open>submit\<close> indexes the list without looking at its
  length, so Return on the freshly started application, and \<^verbatim>\<open>submit\<close> in any state
  with no matches, raise \<^verbatim>\<open>IndexError\<close>; the handlers of Tab and the arrow keys
  test \<^verbatim>\<open>if self.matches\<close> first.
\<close>

theorem submit_on_empty_matches:
  "handle_event t (KEYDOWN K_RETURN u) init_app = Inl IndexError
   \<and> submit (s\<lparr>matches := [], matches_shift := []\<rparr>) = Inl IndexError"
  by (simp add: submit_def getitem_def init_app_def)

subsection \<open>The text that is looked up\<close>

text \<open>
  Claim C2. The exact strategies are to look up the lowered trimmed input.
  \<^verbatim>\<open>update_text\<close> strips the input, tests the result for blankness and then lowers
  the raw input again, so a space before or after a word or a name makes both exact
  lookups miss.
\<close>

theorem untrimmed_lookup_misses:
  "run_resolve dict_tm ''tm'' = Inr ([''tm''], [''TM''])
   \<and> run_resolve dict_tm ''tm '' = Inr ([], [])
   \<and> run_resolve dict_tm ''trademark'' = Inr ([''tm''], [''TM''])
   \<and> run_resolve dict_tm '' trademark'' = Inr ([], [])"
  by code_simp

subsection \<open>Totality and blank input\<close>

text \<open>
  Claim C9. Resolution always returns, and on the empty string and on input of white
  space only it returns no matches and no shifted matches as an ordinary result
  (\<^verbatim>\<open>None\<close>), not as an error.
\<close>

theorem update_text_total:
  "\<exists>r s'. update_text t s = Inr (r, s')
      \<and> (strip (input_text s) = [] \<longrightarrow> r = None \<and> matches s' = [] \<and> matches_shift s' = [])"
proof (cases "strip (input_text s) = []")
  case True
  then show ?thesis by (simp add: update_text_blank reset_matches_def)
next
  case False
  then show ?thesis using update_text_succeeds [of t s] by simp
qed

theorem update_text_total_witness:
  "strip '''' = [] \<and> strip ''   '' = []
   \<and> update_text (tables_of dict_Pi) (init_app\<lparr>input_text := ''''\<rparr>)
       = Inr (None, reset_matches (init_app\<lparr>input_text := ''''\<rparr>))
   \<and> (\<exists>s'. update_text (tables_of dict_Pi) (init_app\<lparr>input_text := ''   ''\<rparr>) = Inr (None, s')
         \<and> matches s' = [] \<and> matches_shift s' = [])"
proof -
  have b1: "strip '''' = []" by (simp add: strip_def)
  have b2: "strip ''   '' = []" by (simp add: strip_def isspace_def whitespace_def)
  from update_text_total [of "tables_of dict_Pi" "init_app\<lparr>input_text := ''   ''\<rparr>"] b2
  have "\<exists>s'. update_text (tables_of dict_Pi) (init_app\<lparr>input_text := ''   ''\<rparr>) = Inr (None, s')
         \<and> matches s' = [] \<and> matches_shift s' = []"
    by auto
  with b1 b2 show ?thesis by (simp add: update_text_blank)
qed

text \<open>
  Claim C10. The first character of the raw input is read only past the guard on the
  stripped text: past the guard the read is in range, on the empty string the guard
  returns before the read (which would raise), and so resolution never raises
  \<^verbatim>\<open>IndexError\<close>.
\<close>

theorem first_character_read_in_range:
  "(strip (input_text s) \<noteq> [] \<longrightarrow> (\<exists>c. getitem (input_text s) 0 = Inr c))
   \<and> (input_text s = [] \<longrightarrow>
         getitem (input_text s) 0 = Inl IndexError
         \<and> update_text t s = Inr (None, reset_matches s))
   \<and> update_text t s \<noteq> Inl IndexError"
proof (intro conjI impI)
  assume "strip (input_text s) \<noteq> []"
  then have "input_text s \<noteq> []" by (rule nonblank_nonempty)
  then show "\<exists>c. getitem (input_text s) 0 = Inr c" by (simp add: getitem_first)
next
  assume e: "input_text s = []"
  then show "getitem (input_text s) 0 = Inl IndexError" by (simp add: getitem_def)
  from e show "update_text t s = Inr (None, reset_matches s)"
    by (simp add: update_text_blank strip_Nil)
next
  from update_text_succeeds [of t s] show "update_text t s \<noteq> Inl IndexError" by auto
qed

theorem first_character_read_in_range_witness:
  "strip '' Pi'' \<noteq> [] \<and> getitem '' Pi'' 0 = Inr CHR '' ''
   \<and> getitem '''' 0 = (Inl IndexError :: error + char)
   \<and> update_text (tables_of dict_Pi) (init_app\<lparr>input_text := ''''\<rparr>)
        = Inr (None, reset_matches (init_app\<lparr>input_text := ''''\<rparr>))
   \<and> update_text (tables_of dict_Pi) (init_app\<lparr>input_text := '' Pi''\<rparr>) \<noteq> Inl IndexError"
proof -
  have n: "strip '' Pi'' \<noteq> []" by (simp add: strip_def isspace_def whitespace_def)
  have e: "input_text (init_app\<lparr>input_text := ''''\<rparr>) = []" by simp
  have g: "getitem '' Pi'' 0 = Inr CHR '' ''" by (simp add: getitem_def)
  from first_character_read_in_range [of "init_app\<lparr>input_text := '' Pi''\<rparr>" "tables_of dict_Pi"]
       first_character_read_in_range [of "init_app\<lparr>input_text := ''''\<rparr>" "tables_of dict_Pi"]
       n e g
  show ?thesis by simp
qed

subsection \<open>The selection\<close>

text \<open>
  Claim C8. The selection moves modulo the number of matches and wraps around: Right
  and Tab go to \<open>(selection + 1) mod n\<close>, Left and Tab with shift held go to
  \<open>(selection - 1 + n) mod n\<close>; with no matches the three keys change nothing; and
  every run of \<^verbatim>\<open>update_text\<close> sets the selection to 0. With three matches,
  forward from 2 gives 0 and backward from 0 gives 2.
\<close>

theorem selection_cycles:
  "(matches s = [] \<longrightarrow>
      handle_event t (KEYDOWN K_TAB u) s = Inr s
      \<and> handle_event t (KEYDOWN K_LEFT u) s = Inr s
      \<and> handle_event t (KEYDOWN K_RIGHT u) s = Inr s)
   \<and> (matches s \<noteq> [] \<longrightarrow>
        (\<forall>k. (k = K_RIGHT \<or> k = K_TAB \<and> \<not> shift s) \<longrightarrow>
           (\<exists>s'. handle_event t (KEYDOWN k u) s = Inr s'
              \<and> selection s' = (selection s + 1) mod int (length (matches s))
              \<and> 0 \<le> selection s' \<and> selection s' < int (length (matches s))
              \<and> matches s' = matches s \<and> matches_shift s' = matches_shift s))
      \<and> (\<forall>k. (k = K_LEFT \<or> k = K_TAB \<and> shift s) \<longrightarrow>
           (\<exists>s'. handle_event t (KEYDOWN k u) s = Inr s'
              \<and> selection s' = (selection s - 1 + int (length (matches s))) mod int (length (matches s))
              \<and> 0 \<le> selection s' \<and> selection s' < int (length (matches s))
              \<and> matches s' = matches s \<and> matches_shift s' = matches_shift s)))
   \<and> (\<forall>r s'. update_text t s = Inr (r, s') \<longrightarrow> selection s' = 0)"
proof (intro conjI impI allI)
  fix r s' assume "update_text t s = Inr (r, s')"
  then show "selection s' = 0" by (rule selection_reset)
next
  fix k assume ne: "matches s \<noteq> []" and k: "k = K_RIGHT \<or> k = K_TAB \<and> \<not> shift s"
  from ne have pos: "0 < int (length (matches s))" by simp
  from k pos show "\<exists>s'. handle_event t (KEYDOWN k u) s = Inr s'
              \<and> selection s' = (selection s + 1) mod int (length (matches s))
              \<and> 0 \<le> selection s' \<and> selection s' < int (length (matches s))
              \<and> matches s' = matches s \<and> matches_shift s' = matches_shift s"
    using ne by (auto simp: select_next_def)
next
  fix k assume ne: "matches s \<noteq> []" and k: "k = K_LEFT \<or> k = K_TAB \<and> shift s"
  from ne have pos: "0 < int (length (matches s))" by simp
  from k pos show "\<exists>s'. handle_event t (KEYDOWN k u) s = Inr s'
              \<and> selection s' = (selection s - 1 + int (length (matches s))) mod int (length (matches s))
              \<and> 0 \<le> selection s' \<and> selection s' < int (length (matches s))
              \<and> matches s' = matches s \<and> matches_shift s' = matches_shift s"
    using ne by (auto simp: select_prev_def)
qed simp_all

theorem selection_cycles_witness:
  "matches init_app = [] \<and> handle_event (tables_of dict_AB) (KEYDOWN K_RIGHT []) init_app = Inr init_app
   \<and> matches (three\<lparr>selection := 2\<rparr>) \<noteq> []
   \<and> (\<exists>s'. handle_event (tables_of dict_AB) (KEYDOWN K_RIGHT []) (three\<lparr>selection := 2\<rparr>) = Inr s'
          \<and> selection s' = 0)
   \<and> (\<exists>s'. handle_event (tables_of dict_AB) (KEYDOWN K_LEFT []) (three\<lparr>selection := 0\<rparr>) = Inr s'
          \<and> selection s' = 2)
   \<and> (\<exists>r s'. update_text (tables_of dict_AB) (three\<lparr>selection := 2, input_text := [CHR 0x78]\<rparr>)
             = Inr (r, s') \<and> selection s' = 0)"
proof -
  have e: "matches init_app = []" by (simp add: init_app_def)
  have n: "matches (three\<lparr>selection := 2\<rparr>) \<noteq> []" "matches (three\<lparr>selection := 0\<rparr>) \<noteq> []"
    by (simp_all add: three_def)
  have l: "int (length (matches three)) = 3" by (simp add: three_def)
  from selection_cycles [of init_app "tables_of dict_AB" "[]"]
       selection_cycles [of "three\<lparr>selection := 2\<rparr>" "tables_of dict_AB" "[]"]
       selection_cycles [of "three\<lparr>selection := 0\<rparr>" "tables_of dict_AB" "[]"]
       selection_cycles [of "three\<lparr>selection := 2, input_text := [CHR 0x78]\<rparr>" "tables_of dict_AB" "[]"]
       update_text_succeeds [of "tables_of dict_AB" "three\<lparr>selection := 2, input_text := [CHR 0x78]\<rparr>"]
       e n l
  show ?thesis by (auto simp: select_next_def select_prev_def)
qed

subsection \<open>The tables that \<^verbatim>\<open>build_dictionary\<close> leaves\<close>

lemma set_set_add: "set (set_add x xs) = insert x (set xs)"
  by (auto simp: set_add_def)

lemma distinct_set_add: "distinct xs \<Longrightarrow> distinct (set_add x xs)"
  by (simp add: set_add_def)

lemma add_to_apply:
  "add_to d k w k' =
     (if k' = k then Some (case d k of Some s \<Rightarrow> set_add w s | None \<Rightarrow> [w]) else d k')"
  by (simp add: add_to_def split: option.splits)

lemma fold_add_to_member:
  "fold (\<lambda>k d. add_to d k w) ks d k' = Some ws \<Longrightarrow> x \<in> set ws \<Longrightarrow>
     x = w \<or> (\<exists>ws0. d k' = Some ws0 \<and> x \<in> set ws0)"
proof (induction ks arbitrary: d)
  case Nil
  then show ?case by simp
next
  case (Cons k ks)
  from Cons.prems have "fold (\<lambda>k d. add_to d k w) ks (add_to d k w) k' = Some ws" by simp
  from Cons.IH [OF this Cons.prems(2)]
  show ?case
    by (auto simp: add_to_apply set_set_add split: if_splits option.splits)
qed

lemma fold_add_to_distinct:
  "(\<And>k s. d k = Some s \<Longrightarrow> distinct s) \<Longrightarrow>
   fold (\<lambda>k d. add_to d k w) ks d k' = Some ws \<Longrightarrow> distinct ws"
proof (induction ks arbitrary: d)
  case Nil
  then show ?case by simp
next
  case (Cons k ks)
  have "\<And>j s. add_to d k w j = Some s \<Longrightarrow> distinct s"
    using Cons.prems(1)
    by (auto simp: add_to_apply distinct_set_add split: if_splits option.splits)
  moreover from Cons.prems(2) have "fold (\<lambda>k d. add_to d k w) ks (add_to d k w) k' = Some ws"
    by simp
  ultimately show ?case by (rule Cons.IH)
qed

text \<open>What \<^verbatim>\<open>add_entry\<close> leaves in the tables when it does not raise.\<close>

lemma add_entry_tables:
  assumes "add_entry t (word, data) = Inr t'"
  shows "lowercase_snippets t' = (lowercase_snippets t)(lower word \<mapsto> word)"
    and "tags_tab t' = fold (\<lambda>tag d. add_to d tag (lower word))
                         (case tags data of Some ts \<Rightarrow> ts | None \<Rightarrow> []) (tags_tab t)"
    and "chars_tab t' = fold (\<lambda>ch d. add_to d ch (lower word))
                         (case chars data of Some cs \<Rightarrow> cs | None \<Rightarrow> []) (chars_tab t)"
  using assms
  by (auto simp: add_entry_def Let_def split: option.splits if_splits)

lemma add_entry_refs:
  assumes step: "add_entry t (word, data) = Inr t'"
    and inv: "\<And>k ws x. tags_tab t k = Some ws \<or> chars_tab t k = Some ws \<Longrightarrow> x \<in> set ws \<Longrightarrow>
                \<exists>w\<in>K. lowercase_snippets t x = Some w \<and> lower w = x"
    and k: "tags_tab t' k = Some ws \<or> chars_tab t' k = Some ws"
    and x: "x \<in> set ws"
  shows "\<exists>w\<in>insert word K. lowercase_snippets t' x = Some w \<and> lower w = x"
proof -
  note tabs = add_entry_tables [OF step]
  have "x = lower word \<or> (\<exists>ws0. (tags_tab t k = Some ws0 \<or> chars_tab t k = Some ws0) \<and> x \<in> set ws0)"
    using k x tabs(2,3) fold_add_to_member [of "lower word" _ _ k ws x] by metis
  then show ?thesis
  proof
    assume "x = lower word"
    then show ?thesis by (simp add: tabs(1))
  next
    assume "\<exists>ws0. (tags_tab t k = Some ws0 \<or> chars_tab t k = Some ws0) \<and> x \<in> set ws0"
    then obtain ws0 where "tags_tab t k = Some ws0 \<or> chars_tab t k = Some ws0" "x \<in> set ws0"
      by blast
    from inv [OF this] obtain w where "w \<in> K" "lowercase_snippets t x = Some w" "lower w = x"
      by blast
    then show ?thesis by (cases "x = lower word") (auto simp: tabs(1))
  qed
qed

lemma build_loop_refs:
  "build_loop t items = Inr t' \<Longrightarrow>
   (\<And>k ws x. tags_tab t k = Some ws \<or> chars_tab t k = Some ws \<Longrightarrow> x \<in> set ws \<Longrightarrow>
                \<exists>w\<in>K. lowercase_snippets t x = Some w \<and> lower w = x) \<Longrightarrow>
   tags_tab t' k = Some ws \<or> chars_tab t' k = Some ws \<Longrightarrow> x \<in> set ws \<Longrightarrow>
   \<exists>w\<in>K \<union> fst ` set items. lowercase_snippets t' x = Some w \<and> lower w = x"
proof (induction items arbitrary: t K)
  case Nil
  then show ?case by simp
next
  case (Cons item items)
  obtain word data where item: "item = (word, data)" by (cases item)
  from Cons.prems(1) obtain t1 where t1: "add_entry t (word, data) = Inr t1"
    and rest: "build_loop t1 items = Inr t'"
    by (auto simp: item split: sum.splits)
  have "\<exists>w\<in>insert word K \<union> fst ` set items. lowercase_snippets t' x = Some w \<and> lower w = x"
  proof (rule Cons.IH [OF rest _ Cons.prems(3,4)])
    fix k ws x
    assume a: "tags_tab t1 k = Some ws \<or> chars_tab t1 k = Some ws" and b: "x \<in> set ws"
    show "\<exists>w\<in>insert word K. lowercase_snippets t1 x = Some w \<and> lower w = x"
    proof (rule add_entry_refs [OF t1 _ a b])
      fix k' ws' x'
      assume "tags_tab t k' = Some ws' \<or> chars_tab t k' = Some ws'" "x' \<in> set ws'"
      then show "\<exists>w\<in>K. lowercase_snippets t x' = Some w \<and> lower w = x'"
        by (rule Cons.prems(2))
    qed
  qed
  then show ?case by (simp add: item)
qed

lemma tables_of_built: "\<not> isl (build_dictionary d) \<Longrightarrow> build_dictionary d = Inr (tables_of d)"
  by (cases "build_dictionary d") (simp_all add: tables_of_def)

text \<open>
  Claim C4, as amended. \<^verbatim>\<open>build_dictionary\<close> stores \<^verbatim>\<open>lowercase_word\<close> in the sets
  of \<^verbatim>\<open>self.tags\<close> and \<^verbatim>\<open>self.chars\<close>, not the word itself. So every member of
  such a set is the lower-cased word of an entry of the dictionary, and
  \<^verbatim>\<open>lowercase_snippets\<close> maps it to an entry word of which it is the lower case.
\<close>

theorem index_words_are_lowered_entries:
  assumes "build_dictionary d = Inr t"
    and "tags_tab t k = Some ws \<or> chars_tab t k = Some ws"
    and "x \<in> set ws"
  shows "\<exists>word\<in>fst ` set d. lowercase_snippets t x = Some word \<and> x = lower word"
proof -
  have "\<exists>w\<in>{} \<union> fst ` set d. lowercase_snippets t x = Some w \<and> lower w = x"
  proof (rule build_loop_refs [OF _ _ assms(2,3)])
    show "build_loop empty_tables d = Inr t" using assms(1) by (simp add: build_dictionary_def)
  next
    fix k ws x
    assume "tags_tab empty_tables k = Some ws \<or> chars_tab empty_tables k = Some ws"
    then show "\<exists>w\<in>{}. lowercase_snippets empty_tables x = Some w \<and> lower w = x"
      by (simp add: empty_tables_def)
  qed
  then show ?thesis by auto
qed

text \<open>
  Claim C4 as stated fails: the entry \<^verbatim>\<open>Pi\<close> is stored in the sets as \<^verbatim>\<open>pi\<close>, which
  is not a word of the dictionary.
\<close>

theorem index_words_not_entry_words:
  "\<not> isl (build_dictionary dict_Pi)
   \<and> tags_tab (tables_of dict_Pi) ''greek'' = Some [''pi'']
   \<and> chars_tab (tables_of dict_Pi) ''p'' = Some [''pi'']
   \<and> ''pi'' \<notin> fst ` set dict_Pi"
  by code_simp

theorem index_words_are_lowered_entries_witness:
  "build_dictionary dict_Pi = Inr (tables_of dict_Pi)
   \<and> tags_tab (tables_of dict_Pi) ''greek'' = Some [''pi'']
   \<and> ''pi'' \<in> set [''pi'']
   \<and> lowercase_snippets (tables_of dict_Pi) ''pi'' = Some ''Pi''
   \<and> ''pi'' = lower ''Pi''
   \<and> ''Pi'' \<in> fst ` set dict_Pi"
proof -
  have b: "build_dictionary dict_Pi = Inr (tables_of dict_Pi)"
    by (rule tables_of_built) code_simp
  have g: "tags_tab (tables_of dict_Pi) ''greek'' = Some [''pi'']" by code_simp
  have m: "''pi'' \<in> set [''pi'']" by simp
  have k: "fst ` set dict_Pi = {''Pi''}" by (simp add: dict_Pi_def)
  have l: "lower ''Pi'' = ''pi''" by code_simp
  from index_words_are_lowered_entries [OF b disjI1 [OF g] m] b g k l
  show ?thesis by auto
qed

subsection \<open>The casing loop\<close>

lemma upd_upper:
  "k < n \<Longrightarrow> (map (\<lambda>i. if i < k then f i else g i) [0..<n])[k := f k] =
     map (\<lambda>i. if i < Suc k then f i else g i) [0..<n]"
  by (rule nth_equalityI) (simp_all add: nth_list_update less_Suc_eq)

lemma same_upper:
  "k < n \<Longrightarrow> f k = g k \<Longrightarrow> map (\<lambda>i. if i < k then f i else g i) [0..<n] =
     map (\<lambda>i. if i < Suc k then f i else g i) [0..<n]"
  by (rule nth_equalityI) (simp_all add: less_Suc_eq)

lemma case_step_at:
  assumes "k < length ms"
  shows "case_step hlu ial k
     (map (\<lambda>i. if i < k then cased hlu ial (ms ! i) else ms ! i) [0..<length ms],
      map (\<lambda>i. if i < k then upper (ms ! i) else []) [0..<length ms]) =
     (map (\<lambda>i. if i < Suc k then cased hlu ial (ms ! i) else ms ! i) [0..<length ms],
      map (\<lambda>i. if i < Suc k then upper (ms ! i) else []) [0..<length ms])"
proof -
  let ?A = "map (\<lambda>i. if i < k then cased hlu ial (ms ! i) else ms ! i) [0..<length ms]"
  let ?B = "map (\<lambda>i. if i < k then upper (ms ! i) else []) [0..<length ms]"
  let ?A' = "map (\<lambda>i. if i < Suc k then cased hlu ial (ms ! i) else ms ! i) [0..<length ms]"
  let ?B' = "map (\<lambda>i. if i < Suc k then upper (ms ! i) else []) [0..<length ms]"
  have Ak: "?A ! k = ms ! k" using assms by simp
  have B: "?B[k := upper (ms ! k)] = ?B'" using assms by (rule upd_upper)
  have Bk: "?B' ! k = upper (ms ! k)" using assms by simp
  have A: "?A[k := cased hlu ial (ms ! k)] = ?A'" using assms by (rule upd_upper)
  have step: "case_step hlu ial k (?A, ?B) =
     (if hlu then (?A[k := ?B' ! k], ?B')
      else if ial then (?A[k := lower (ms ! k)], ?B') else (?A, ?B'))"
    unfolding case_step_def Let_def fst_conv snd_conv Ak B ..
  show ?thesis
  proof (cases hlu)
    case True
    with A have "?A[k := ?B' ! k] = ?A'" unfolding Bk by (simp only: cased_def if_True)
    with True show ?thesis unfolding step by (simp only: if_True)
  next
    case h: False
    show ?thesis
    proof (cases ial)
      case True
      with A h have "?A[k := lower (ms ! k)] = ?A'" by (simp only: cased_def if_True if_False)
      with True h show ?thesis unfolding step by (simp only: if_True if_False)
    next
      case False
      have "cased hlu ial (ms ! k) = ms ! k" using h False by (simp add: cased_def)
      with assms have "?A = ?A'" by (rule same_upper)
      with False h show ?thesis unfolding step by (simp only: if_False)
    qed
  qed
qed

lemma case_loop_prefix:
  "k \<le> length ms \<Longrightarrow>
   fold (case_step hlu ial) [0..<k] (ms, replicate (length ms) []) =
     (map (\<lambda>i. if i < k then cased hlu ial (ms ! i) else ms ! i) [0..<length ms],
      map (\<lambda>i. if i < k then upper (ms ! i) else []) [0..<length ms])"
proof (induction k)
  case 0
  show ?case by (simp add: map_nth map_replicate_const)
next
  case (Suc k)
  from Suc have k: "k < length ms"
    and IH: "fold (case_step hlu ial) [0..<k] (ms, replicate (length ms) []) =
     (map (\<lambda>i. if i < k then cased hlu ial (ms ! i) else ms ! i) [0..<length ms],
      map (\<lambda>i. if i < k then upper (ms ! i) else []) [0..<length ms])"
    by simp_all
  have "fold (case_step hlu ial) [0..<Suc k] (ms, replicate (length ms) []) =
     case_step hlu ial k (fold (case_step hlu ial) [0..<k] (ms, replicate (length ms) []))"
    by simp
  also have "\<dots> = (map (\<lambda>i. if i < Suc k then cased hlu ial (ms ! i) else ms ! i) [0..<length ms],
      map (\<lambda>i. if i < Suc k then upper (ms ! i) else []) [0..<length ms])"
    unfolding IH using k by (rule case_step_at)
  finally show ?case .
qed

lemma map_upt_all:
  "map (\<lambda>i. if i < length ms then f (ms ! i) else g i) [0..<length ms] = map f ms"
  by (rule nth_equalityI) simp_all

lemma case_loop_maps:
  "case_loop hlu ial ms = (map (cased hlu ial) ms, map upper ms)"
proof -
  have "case_loop hlu ial ms =
     (map (\<lambda>i. if i < length ms then cased hlu ial (ms ! i) else ms ! i) [0..<length ms],
      map (\<lambda>i. if i < length ms then upper (ms ! i) else []) [0..<length ms])"
    unfolding case_loop_def by (rule case_loop_prefix) simp
  also have "\<dots> = (map (cased hlu ial) ms, map upper ms)"
    using map_upt_all [of ms "cased hlu ial" "\<lambda>i. ms ! i"] map_upt_all [of ms upper "\<lambda>i. []"]
    by (simp only:)
  finally show ?thesis .
qed

lemma matches_set_ranked:
  "matches (set_ranked s d) = map (cased (has_leading_uppercase s) (is_all_lowercase s)) (ranked d)"
  "matches_shift (set_ranked s d) = map upper (ranked d)"
  by (simp_all add: set_ranked_def case_loop_maps)

lemma matches_set_exact:
  "matches (set_exact s w) = [if has_leading_uppercase s then upper w else w]"
  "matches_shift (set_exact s w) = [upper w]"
  by (simp_all add: set_exact_def Let_def)

lemma classified_flags:
  "has_leading_uppercase (classified s) = is_upper_char (hd (input_text s))"
  "is_all_lowercase (classified s) = islower (input_text s)"
  "matches (classified s) = []" "matches_shift (classified s) = []"
  by (simp_all add: classified_def reset_matches_def)

subsection \<open>What each strategy leaves\<close>

lemma ranked_Nil: "ranked [] = []"
  by (simp add: ranked_def)

text \<open>The matches, the shifted matches and the counters after a non-blank input.\<close>

lemma resolved_exact:
  assumes "strip (input_text s) \<noteq> []" and "update_text t s = Inr (r, s')"
    and "lowercase_snippets t (lower (input_text s)) = Some w"
  shows "matches s' = [if is_upper_char (hd (input_text s)) then upper w else w]"
    and "matches_shift s' = [upper w]"
    and "tag_matches s' = []" and "char_matches s' = []" and "r = Some True"
  using assms
  by (auto simp: update_text_nonblank matches_set_exact classified_flags set_exact_def Let_def
        classified_def reset_matches_def)

lemma resolved_name:
  assumes "strip (input_text s) \<noteq> []" and "update_text t s = Inr (r, s')"
    and "lowercase_snippets t (lower (input_text s)) = None"
    and "lowercase_names t (lower (input_text s)) = Some w"
  shows "matches s' = [if is_upper_char (hd (input_text s)) then upper w else w]"
    and "matches_shift s' = [upper w]"
    and "tag_matches s' = []" and "char_matches s' = []" and "r = Some True"
  using assms
  by (auto simp: update_text_nonblank matches_set_exact classified_flags set_exact_def Let_def
        classified_def reset_matches_def)

lemma resolved_tags:
  assumes "strip (input_text s) \<noteq> []" and "update_text t s = Inr (r, s')"
    and "lowercase_snippets t (lower (input_text s)) = None"
    and "lowercase_names t (lower (input_text s)) = None"
    and "tag_counts t (input_text s) \<noteq> []"
  shows "matches s' = map (cased (is_upper_char (hd (input_text s))) (islower (input_text s)))
                        (ranked (tag_counts t (input_text s)))"
    and "matches_shift s' = map upper (ranked (tag_counts t (input_text s)))"
    and "tag_matches s' = tag_counts t (input_text s)" and "char_matches s' = []"
    and "r = Some True"
  using assms
  by (auto simp: update_text_nonblank matches_set_ranked classified_flags set_ranked_def case_loop_maps Let_def
        classified_def reset_matches_def)

lemma resolved_chars:
  assumes "strip (input_text s) \<noteq> []" and "update_text t s = Inr (r, s')"
    and "lowercase_snippets t (lower (input_text s)) = None"
    and "lowercase_names t (lower (input_text s)) = None"
    and "tag_counts t (input_text s) = []"
  shows "matches s' = map (cased (is_upper_char (hd (input_text s))) (islower (input_text s)))
                        (ranked (char_counts t (input_text s)))"
    and "matches_shift s' = map upper (ranked (char_counts t (input_text s)))"
    and "tag_matches s' = []" and "char_matches s' = char_counts t (input_text s)"
    and "r = Some (char_counts t (input_text s) \<noteq> [])"
  using assms
  by (auto simp: update_text_nonblank matches_set_ranked classified_flags set_ranked_def case_loop_maps Let_def
        classified_def reset_matches_def ranked_Nil split: if_splits)

subsection \<open>The order of the strategies\<close>

text \<open>
  Claim C5. On a non-blank input the strategies run in the order word, name, tags,
  characters, and the first that finds something returns: a word that is found decides
  the matches whatever the names, tags and characters hold, and the counting loops are
  not run (both counters stay empty); a name decides when no word is found; the tags
  decide when neither is found and a tag is counted, and the characters are then not
  counted; the characters decide only when nothing else is found.
\<close>

theorem strategy_priority:
  assumes "strip (input_text s) \<noteq> []" and "update_text t s = Inr (r, s')"
  shows "(\<forall>w. lowercase_snippets t (lower (input_text s)) = Some w \<longrightarrow>
            matches_shift s' = [upper w]
            \<and> matches s' = [if is_upper_char (hd (input_text s)) then upper w else w]
            \<and> tag_matches s' = [] \<and> char_matches s' = [])
       \<and> (\<forall>w. lowercase_snippets t (lower (input_text s)) = None
              \<and> lowercase_names t (lower (input_text s)) = Some w \<longrightarrow>
            matches_shift s' = [upper w]
            \<and> matches s' = [if is_upper_char (hd (input_text s)) then upper w else w]
            \<and> tag_matches s' = [] \<and> char_matches s' = [])
       \<and> (lowercase_snippets t (lower (input_text s)) = None
              \<and> lowercase_names t (lower (input_text s)) = None
              \<and> tag_counts t (input_text s) \<noteq> [] \<longrightarrow>
            matches_shift s' = map upper (ranked (tag_counts t (input_text s)))
            \<and> matches s' \<noteq> [] \<and> char_matches s' = [])
       \<and> (lowercase_snippets t (lower (input_text s)) = None
              \<and> lowercase_names t (lower (input_text s)) = None
              \<and> tag_counts t (input_text s) = [] \<longrightarrow>
            matches_shift s' = map upper (ranked (char_counts t (input_text s))))"
proof (intro conjI allI impI)
  fix w assume "lowercase_snippets t (lower (input_text s)) = Some w"
  note h = resolved_exact [OF assms this]
  show "matches_shift s' = [upper w]" by (rule h)
  show "matches s' = [if is_upper_char (hd (input_text s)) then upper w else w]" by (rule h)
  show "tag_matches s' = []" by (rule h)
  show "char_matches s' = []" by (rule h)
next
  fix w assume "lowercase_snippets t (lower (input_text s)) = None
              \<and> lowercase_names t (lower (input_text s)) = Some w"
  then have a: "lowercase_snippets t (lower (input_text s)) = None"
    and b: "lowercase_names t (lower (input_text s)) = Some w" by simp_all
  note h = resolved_name [OF assms a b]
  show "matches_shift s' = [upper w]" by (rule h)
  show "matches s' = [if is_upper_char (hd (input_text s)) then upper w else w]" by (rule h)
  show "tag_matches s' = []" by (rule h)
  show "char_matches s' = []" by (rule h)
next
  assume "lowercase_snippets t (lower (input_text s)) = None
              \<and> lowercase_names t (lower (input_text s)) = None
              \<and> tag_counts t (input_text s) \<noteq> []"
  then have a: "lowercase_snippets t (lower (input_text s)) = None"
    and b: "lowercase_names t (lower (input_text s)) = None"
    and c: "tag_counts t (input_text s) \<noteq> []" by simp_all
  note h = resolved_tags [OF assms a b c]
  show "matches_shift s' = map upper (ranked (tag_counts t (input_text s)))" by (rule h)
  show "char_matches s' = []" by (rule h)
  from c have "ranked (tag_counts t (input_text s)) \<noteq> []"
    by (cases "tag_counts t (input_text s)") (auto simp: ranked_def MAX_MATCHES_def)
  then show "matches s' \<noteq> []" by (simp add: h(1))
next
  assume "lowercase_snippets t (lower (input_text s)) = None
              \<and> lowercase_names t (lower (input_text s)) = None
              \<and> tag_counts t (input_text s) = []"
  then have a: "lowercase_snippets t (lower (input_text s)) = None"
    and b: "lowercase_names t (lower (input_text s)) = None"
    and c: "tag_counts t (input_text s) = []" by simp_all
  show "matches_shift s' = map upper (ranked (char_counts t (input_text s)))"
    by (rule resolved_chars [OF assms a b c])
qed

theorem strategy_priority_witness:
  "strip ''pi'' \<noteq> []
   \<and> lowercase_snippets (tables_of dict_overlap) (lower ''pi'') = Some ''pi''
   \<and> lowercase_names (tables_of dict_overlap) (lower ''pi'') = Some ''tau''
   \<and> tag_counts (tables_of dict_overlap) ''pi'' \<noteq> []
   \<and> char_counts (tables_of dict_overlap) ''pi'' \<noteq> []
   \<and> (\<exists>r s'. update_text (tables_of dict_overlap) (init_app\<lparr>input_text := ''pi''\<rparr>) = Inr (r, s')
          \<and> matches s' = [''pi''] \<and> matches_shift s' = [''PI'']
          \<and> tag_matches s' = [] \<and> char_matches s' = [])
   \<and> strip ''euler'' \<noteq> []
   \<and> lowercase_snippets (tables_of dict_overlap) (lower ''euler'') = None
   \<and> lowercase_names (tables_of dict_overlap) (lower ''euler'') = Some ''e''
   \<and> tag_counts (tables_of dict_overlap) ''euler'' \<noteq> []
   \<and> (\<exists>r s'. update_text (tables_of dict_overlap) (init_app\<lparr>input_text := ''euler''\<rparr>) = Inr (r, s')
          \<and> matches s' = [''e''] \<and> matches_shift s' = [''E''] \<and> tag_matches s' = [])
   \<and> strip ''pi e'' \<noteq> []
   \<and> lowercase_snippets (tables_of dict_overlap) (lower ''pi e'') = None
   \<and> lowercase_names (tables_of dict_overlap) (lower ''pi e'') = None
   \<and> ranked (tag_counts (tables_of dict_overlap) ''pi e'') = [''e'']
   \<and> ranked (char_counts (tables_of dict_overlap) ''pi e'') = [''phi'', ''e'']
   \<and> (\<exists>r s'. update_text (tables_of dict_overlap) (init_app\<lparr>input_text := ''pi e''\<rparr>) = Inr (r, s')
          \<and> matches_shift s' = [''E''] \<and> char_matches s' = [])"
proof -
  let ?T = "tables_of dict_overlap"
  have n1: "strip ''pi'' \<noteq> []" and n2: "strip ''euler'' \<noteq> []" and n3: "strip ''pi e'' \<noteq> []"
    by code_simp+
  have a1: "lowercase_snippets ?T (lower ''pi'') = Some ''pi''"
    and a2: "lowercase_names ?T (lower ''pi'') = Some ''tau''"
    and a3: "tag_counts ?T ''pi'' \<noteq> []" and a4: "char_counts ?T ''pi'' \<noteq> []"
    by code_simp+
  have b1: "lowercase_snippets ?T (lower ''euler'') = None"
    and b2: "lowercase_names ?T (lower ''euler'') = Some ''e''"
    and b3: "tag_counts ?T ''euler'' \<noteq> []"
    by code_simp+
  have c1: "lowercase_snippets ?T (lower ''pi e'') = None"
    and c2: "lowercase_names ?T (lower ''pi e'') = None"
    and c3: "ranked (tag_counts ?T ''pi e'') = [''e'']"
    and c4: "ranked (char_counts ?T ''pi e'') = [''phi'', ''e'']"
    by code_simp+
  have c5: "tag_counts ?T ''pi e'' \<noteq> []" using c3 by (auto simp: ranked_Nil)
  have u: "upper ''pi'' = ''PI''" "upper ''e'' = ''E''" "\<not> is_upper_char (hd ''pi'')"
    "\<not> is_upper_char (hd ''euler'')"
    by code_simp+
  obtain r1 s1 where s1: "update_text ?T (init_app\<lparr>input_text := ''pi''\<rparr>) = Inr (r1, s1)"
    using update_text_succeeds by blast
  obtain r2 s2 where s2: "update_text ?T (init_app\<lparr>input_text := ''euler''\<rparr>) = Inr (r2, s2)"
    using update_text_succeeds by blast
  obtain r3 s3 where s3: "update_text ?T (init_app\<lparr>input_text := ''pi e''\<rparr>) = Inr (r3, s3)"
    using update_text_succeeds by blast
  have p1: "matches s1 = [''pi''] \<and> matches_shift s1 = [''PI'']
          \<and> tag_matches s1 = [] \<and> char_matches s1 = []"
    using strategy_priority [OF _ s1] n1 a1 u by simp
  have p2: "matches s2 = [''e''] \<and> matches_shift s2 = [''E''] \<and> tag_matches s2 = []"
    using strategy_priority [OF _ s2] n2 b1 b2 u by simp
  have p3: "matches_shift s3 = [''E''] \<and> char_matches s3 = []"
    using strategy_priority [OF _ s3] n3 c1 c2 c3 c5 u by simp
  from s1 p1 have e1: "\<exists>r s'. update_text ?T (init_app\<lparr>input_text := ''pi''\<rparr>) = Inr (r, s')
          \<and> matches s' = [''pi''] \<and> matches_shift s' = [''PI'']
          \<and> tag_matches s' = [] \<and> char_matches s' = []" by blast
  from s2 p2 have e2: "\<exists>r s'. update_text ?T (init_app\<lparr>input_text := ''euler''\<rparr>) = Inr (r, s')
          \<and> matches s' = [''e''] \<and> matches_shift s' = [''E''] \<and> tag_matches s' = []" by blast
  from s3 p3 have e3: "\<exists>r s'. update_text ?T (init_app\<lparr>input_text := ''pi e''\<rparr>) = Inr (r, s')
          \<and> matches_shift s' = [''E''] \<and> char_matches s' = []" by blast
  show ?thesis
    using n1 n2 n3 a1 a2 a3 a4 b1 b2 b3 c1 c2 c3 c4 e1 e2 e3 by (intro conjI)
qed

subsection \<open>The counters\<close>

lemma counter_Nil: "counter [] e = 0"
  by (simp add: counter_def)

lemma counter_incr: "counter (incr d k) e = counter d e + (if k = e then 1 else 0)"
  by (induction d k rule: incr.induct) (auto simp: counter_def)

lemma counter_fold_incr:
  "counter (fold (\<lambda>snippet d. incr d snippet) l d) e = counter d e + int (count_list l e)"
  by (induction l arbitrary: d) (auto simp: counter_incr)

lemma keys_incr: "set (map fst (incr d k)) = insert k (set (map fst d))"
  by (induction d k rule: incr.induct) auto

lemma distinct_keys_incr: "distinct (map fst d) \<Longrightarrow> distinct (map fst (incr d k))"
proof (induction d k rule: incr.induct)
  case (1 k)
  show ?case by simp
next
  case (2 k' n d k)
  have "fst ` set (incr d k) = insert k (fst ` set d)" using keys_incr [of d k] by simp
  with 2 show ?case by auto
qed

lemma positive_incr: "list_all (\<lambda>p. 0 < snd p) d \<Longrightarrow> list_all (\<lambda>p. 0 < snd p) (incr d k)"
  by (induction d k rule: incr.induct) auto

lemma keys_fold_incr:
  "set (map fst (fold (\<lambda>snippet d. incr d snippet) l d)) = set l \<union> set (map fst d)"
  by (induction l arbitrary: d) (auto simp: keys_incr simp del: set_map)

lemma distinct_keys_fold_incr:
  "distinct (map fst d) \<Longrightarrow> distinct (map fst (fold (\<lambda>snippet d. incr d snippet) l d))"
  by (induction l arbitrary: d) (auto simp: distinct_keys_incr)

lemma positive_fold_incr:
  "list_all (\<lambda>p. 0 < snd p) d \<Longrightarrow> list_all (\<lambda>p. 0 < snd p) (fold (\<lambda>snippet d. incr d snippet) l d)"
  by (induction l arbitrary: d) (auto simp: positive_incr)

lemma tag_loop_tagged:
  "tag_loop t ws d = fold (\<lambda>w d. fold (\<lambda>snippet d. incr d snippet) (tagged t w) d) ws d"
proof -
  have "(\<lambda>word tm. case tags_tab t word of
                        Some snippets \<Rightarrow> fold (\<lambda>snippet tm. incr tm snippet) snippets tm
                      | None \<Rightarrow> tm)
        = (\<lambda>w d. fold (\<lambda>snippet d. incr d snippet) (tagged t w) d)"
    by (intro ext) (simp add: tagged_def split: option.splits)
  then show ?thesis by (simp add: tag_loop_def)
qed

lemma counter_tag_loop:
  "counter (tag_loop t ws d) e = counter d e + (\<Sum>w\<leftarrow>ws. int (count_list (tagged t w) e))"
  unfolding tag_loop_tagged
  by (induction ws arbitrary: d) (auto simp: counter_fold_incr)

lemma keys_tag_loop:
  "set (map fst (tag_loop t ws d)) = (\<Union>w\<in>set ws. set (tagged t w)) \<union> set (map fst d)"
  unfolding tag_loop_tagged
  by (induction ws arbitrary: d) (auto simp: keys_fold_incr simp del: set_map)

lemma distinct_keys_tag_loop:
  "distinct (map fst d) \<Longrightarrow> distinct (map fst (tag_loop t ws d))"
  unfolding tag_loop_tagged
  by (induction ws arbitrary: d) (auto simp: distinct_keys_fold_incr)

lemma count_list_distinct: "distinct xs \<Longrightarrow> count_list xs x = (if x \<in> set xs then 1 else 0)"
  by (induction xs) auto

lemma sum_list_indicator:
  "(\<Sum>w\<leftarrow>ws. int (if P w then 1 else 0)) = int (length (filter P ws))"
  by (induction ws) auto

lemma counter_tag_counts:
  assumes "sets_distinct t"
  shows "counter (tag_counts t raw) e =
           int (length (filter (\<lambda>w. e \<in> set (tagged t w)) (split (lower raw))))"
proof -
  have d: "\<And>w. count_list (tagged t w) e = (if e \<in> set (tagged t w) then 1 else 0)"
    using assms by (simp add: sets_distinct_def count_list_distinct)
  have "counter (tag_counts t raw) e = (\<Sum>w\<leftarrow>split (lower raw). int (count_list (tagged t w) e))"
    by (simp add: tag_counts_def counter_tag_loop counter_Nil)
  also have "\<dots> = int (length (filter (\<lambda>w. e \<in> set (tagged t w)) (split (lower raw))))"
    unfolding d by (rule sum_list_indicator)
  finally show ?thesis .
qed

subsection \<open>The ranking\<close>

text \<open>Sorting the keys by \<^verbatim>\<open>d.get\<close> is sorting them by their counters.\<close>

lemma insort_key_cong_on:
  "(\<And>y. y \<in> set ys \<Longrightarrow> (f x \<le> f y) = (g x \<le> g y)) \<Longrightarrow>
   insort_key f x ys = insort_key g x ys"
  by (induction ys) auto

lemma sort_key_cong_on:
  "(\<And>x y. x \<in> set xs \<Longrightarrow> y \<in> set xs \<Longrightarrow> (f x \<le> f y) = (g x \<le> g y)) \<Longrightarrow>
   sort_key f xs = sort_key g xs"
proof (induction xs)
  case Nil
  show ?case by simp
next
  case (Cons x xs)
  have "sort_key f xs = sort_key g xs" using Cons by simp
  moreover have "insort_key f x (sort_key g xs) = insort_key g x (sort_key g xs)"
    using Cons.prems by (intro insort_key_cong_on) simp
  ultimately show ?case by simp
qed

lemma map_of_counter:
  "k \<in> set (map fst d) \<Longrightarrow> map_of d k = Some (counter d k)"
  by (auto simp: counter_def map_of_eq_None_iff split: option.splits)

lemma ranked_by_counter:
  "ranked d = take MAX_MATCHES (sort_key (counter d) (map fst d))"
proof -
  have "sort_key (map_of d) (map fst d) = sort_key (counter d) (map fst d)"
    by (rule sort_key_cong_on) (simp add: map_of_counter)
  then show ?thesis by (simp add: ranked_def)
qed

lemma sorted_take: "sorted xs \<Longrightarrow> sorted (take n xs)"
  by (induction xs arbitrary: n) (auto simp: take_Cons' dest: in_set_takeD)

lemma ranked_sorted: "sorted (map (counter d) (ranked d))"
  unfolding ranked_by_counter take_map [symmetric]
  by (rule sorted_take) (rule sorted_sort_key)

lemma ranked_length: "length (ranked d) \<le> MAX_MATCHES"
  by (simp add: ranked_def)

lemma ranked_all:
  "length d \<le> MAX_MATCHES \<Longrightarrow> set (ranked d) = set (map fst d)"
  by (simp add: ranked_by_counter)

lemma ranked_length_eq: "length (ranked d) = min (length d) MAX_MATCHES"
  by (simp add: ranked_by_counter)

lemma ranked_distinct: "distinct (map fst d) \<Longrightarrow> distinct (ranked d)"
  unfolding ranked_by_counter by (rule distinct_take) simp

lemma ranked_subset: "set (ranked d) \<subseteq> set (map fst d)"
proof -
  have "set (ranked d) \<subseteq> set (sort_key (counter d) (map fst d))"
    unfolding ranked_by_counter by (rule set_take_subset)
  then show ?thesis by simp
qed

subsection \<open>Sets without repetition, and the words of the input\<close>

lemma add_entry_distinct:
  assumes "add_entry t (word, data) = Inr t'"
    and "\<forall>k s. tags_tab t k = Some s \<longrightarrow> distinct s"
    and "\<forall>k s. chars_tab t k = Some s \<longrightarrow> distinct s"
  shows "\<forall>k s. tags_tab t' k = Some s \<longrightarrow> distinct s"
    and "\<forall>k s. chars_tab t' k = Some s \<longrightarrow> distinct s"
proof -
  note tabs = add_entry_tables [OF assms(1)]
  show "\<forall>k s. tags_tab t' k = Some s \<longrightarrow> distinct s"
    unfolding tabs(2) using assms(2) fold_add_to_distinct [of "tags_tab t"] by blast
  show "\<forall>k s. chars_tab t' k = Some s \<longrightarrow> distinct s"
    unfolding tabs(3) using assms(3) fold_add_to_distinct [of "chars_tab t"] by blast
qed

lemma build_loop_distinct:
  "build_loop t items = Inr t' \<Longrightarrow>
   \<forall>k s. tags_tab t k = Some s \<longrightarrow> distinct s \<Longrightarrow>
   \<forall>k s. chars_tab t k = Some s \<longrightarrow> distinct s \<Longrightarrow>
   (\<forall>k s. tags_tab t' k = Some s \<longrightarrow> distinct s) \<and> (\<forall>k s. chars_tab t' k = Some s \<longrightarrow> distinct s)"
proof (induction items arbitrary: t)
  case Nil
  then show ?case by auto
next
  case (Cons item items)
  obtain word data where item: "item = (word, data)" by (cases item)
  from Cons.prems(1) obtain t1 where t1: "add_entry t (word, data) = Inr t1"
    and rest: "build_loop t1 items = Inr t'"
    by (auto simp: item split: sum.splits)
  show ?case
    by (rule Cons.IH [OF rest add_entry_distinct [OF t1 Cons.prems(2,3)]])
qed

lemma build_sets_distinct:
  assumes "build_dictionary d = Inr t"
  shows "sets_distinct t"
proof -
  have "build_loop empty_tables d = Inr t" using assms by (simp add: build_dictionary_def)
  then have "(\<forall>k s. tags_tab t k = Some s \<longrightarrow> distinct s) \<and> (\<forall>k s. chars_tab t k = Some s \<longrightarrow> distinct s)"
    by (rule build_loop_distinct) (simp_all add: empty_tables_def)
  then show ?thesis
    by (auto simp: sets_distinct_def tagged_def charred_def split: option.splits)
qed

lemma isspace_lower_char: "isspace (lower_char c) = isspace c"
proof (cases "is_upper_char c")
  case True
  then show ?thesis
    by (auto simp: is_upper_char_def lower_char_def isspace_def whitespace_def
          upper_letters_def lower_letters_def)
next
  case False
  then have "map_of (zip upper_letters lower_letters) c = None"
    by (simp add: is_upper_char_def map_of_eq_None_iff upper_letters_def lower_letters_def)
  then show ?thesis by (simp add: lower_char_def)
qed

lemma lower_strip: "lower (strip s) = strip (lower s)"
proof -
  have c: "isspace \<circ> lower_char = isspace" by (rule ext) (simp add: isspace_lower_char)
  show ?thesis
    by (simp add: lower_def strip_def rev_map dropWhile_map c)
qed

lemma split_from_leading: "split_from [] (dropWhile isspace s) = split_from [] s"
  by (induction s) auto

lemma split_from_snoc_space:
  "isspace c \<Longrightarrow> split_from cur (s @ [c]) = split_from cur s"
  by (induction s arbitrary: cur) auto

lemma split_from_trailing:
  "list_all isspace ws \<Longrightarrow> split_from cur (s @ ws) = split_from cur s"
proof (induction ws rule: rev_induct)
  case Nil
  show ?case by simp
next
  case (snoc c ws)
  then have "isspace c" and "list_all isspace ws" by simp_all
  then show ?case
    using snoc.IH split_from_snoc_space [of c cur "s @ ws"] by simp
qed

lemma split_from_rstrip:
  "split_from cur (rev (dropWhile isspace (rev s))) = split_from cur s"
proof -
  have "s = rev (dropWhile isspace (rev s)) @ rev (takeWhile isspace (rev s))"
    by (metis rev_append rev_rev_ident takeWhile_dropWhile_id)
  moreover have "list_all isspace (rev (takeWhile isspace (rev s)))"
    by (simp add: list_all_iff) (meson set_takeWhileD)
  ultimately show ?thesis
    using split_from_trailing [of "rev (takeWhile isspace (rev s))" cur "rev (dropWhile isspace (rev s))"]
    by simp
qed

lemma split_strip: "split (strip s) = split s"
  by (simp add: split_def strip_def split_from_rstrip split_from_leading)

lemma split_lower_strip: "split (lower (strip raw)) = split (lower raw)"
  by (simp add: lower_strip split_strip)

subsection \<open>The tag strategy\<close>

lemma keys_tag_counts:
  "set (map fst (tag_counts t raw)) = (\<Union>w\<in>set (split (lower raw)). set (tagged t w))"
  by (simp add: tag_counts_def keys_tag_loop del: set_map)

lemma distinct_keys_tag_counts: "distinct (map fst (tag_counts t raw))"
  unfolding tag_counts_def by (rule distinct_keys_tag_loop) simp

text \<open>
  Claim C6, as amended. In the tag strategy every word of the lowered trimmed input,
  each time it occurs (the words are not made distinct), increments the counter of every
  entry that declares it as a tag, once for the occurrence. The counted entries are
  exactly those with a positive counter, each counted under one key; the result is these
  keys in ascending order of counter (a stable sort of the order of first counting), cut
  to the first \<^verbatim>\<open>MAX_MATCHES\<close> = 10. With entries A (tags x, y) and B (tag x) and
  the input \<^verbatim>\<open>x y\<close>, A counts 2, B counts 1 and B comes before A, whichever of the two
  is iterated first.
\<close>

theorem tag_ranking:
  assumes "sets_distinct t"
  shows "counter (tag_counts t raw) e =
           int (length (filter (\<lambda>w. e \<in> set (tagged t w)) (split (lower (strip raw)))))
       \<and> set (map fst (tag_counts t raw)) = {e. 0 < counter (tag_counts t raw) e}
       \<and> distinct (map fst (tag_counts t raw))
       \<and> ranked (tag_counts t raw) =
           take MAX_MATCHES (sort_key (counter (tag_counts t raw)) (map fst (tag_counts t raw)))
       \<and> sorted (map (counter (tag_counts t raw)) (ranked (tag_counts t raw)))
       \<and> length (ranked (tag_counts t raw)) \<le> 10
       \<and> (\<forall>s r s'. input_text s = raw \<and> strip raw \<noteq> [] \<and> update_text t s = Inr (r, s')
              \<and> lowercase_snippets t (lower raw) = None \<and> lowercase_names t (lower raw) = None
              \<and> tag_counts t raw \<noteq> [] \<longrightarrow>
            tag_matches s' = tag_counts t raw
            \<and> matches_shift s' = map upper (ranked (tag_counts t raw)))"
proof (intro conjI allI impI)
  show c: "counter (tag_counts t raw) e =
           int (length (filter (\<lambda>w. e \<in> set (tagged t w)) (split (lower (strip raw)))))"
    by (simp add: counter_tag_counts [OF assms] split_lower_strip)
  show "set (map fst (tag_counts t raw)) = {e. 0 < counter (tag_counts t raw) e}"
    unfolding keys_tag_counts
    by (auto simp: counter_tag_counts [OF assms] filter_empty_conv)
  show "distinct (map fst (tag_counts t raw))" by (rule distinct_keys_tag_counts)
  show "ranked (tag_counts t raw) =
           take MAX_MATCHES (sort_key (counter (tag_counts t raw)) (map fst (tag_counts t raw)))"
    by (rule ranked_by_counter)
  show "sorted (map (counter (tag_counts t raw)) (ranked (tag_counts t raw)))"
    by (rule ranked_sorted)
  show "length (ranked (tag_counts t raw)) \<le> 10"
    using ranked_length [of "tag_counts t raw"] by (simp add: MAX_MATCHES_def)
next
  fix s r s'
  assume "input_text s = raw \<and> strip raw \<noteq> [] \<and> update_text t s = Inr (r, s')
              \<and> lowercase_snippets t (lower raw) = None \<and> lowercase_names t (lower raw) = None
              \<and> tag_counts t raw \<noteq> []"
  then have h: "strip (input_text s) \<noteq> []" "update_text t s = Inr (r, s')"
    "lowercase_snippets t (lower (input_text s)) = None"
    "lowercase_names t (lower (input_text s)) = None"
    "tag_counts t (input_text s) \<noteq> []" and raw: "input_text s = raw"
    by simp_all
  note res = resolved_tags [OF h]
  show "tag_matches s' = tag_counts t raw" using res(3) raw by simp
  show "matches_shift s' = map upper (ranked (tag_counts t raw))" using res(2) raw by simp
qed

theorem tag_ranking_witness:
  "sets_distinct (tables_of dict_AB)
   \<and> counter (tag_counts (tables_of dict_AB) ''x y'') ''a'' = 2
   \<and> counter (tag_counts (tables_of dict_AB) ''x y'') ''b'' = 1
   \<and> ranked (tag_counts (tables_of dict_AB) ''x y'') = [''b'', ''a'']
   \<and> ranked (tag_counts (tables_of dict_BA) ''x y'') = [''b'', ''a'']
   \<and> strip ''x y'' \<noteq> []
   \<and> lowercase_snippets (tables_of dict_AB) (lower ''x y'') = None
   \<and> lowercase_names (tables_of dict_AB) (lower ''x y'') = None
   \<and> tag_counts (tables_of dict_AB) ''x y'' \<noteq> []
   \<and> (\<exists>r s'. update_text (tables_of dict_AB) (init_app\<lparr>input_text := ''x y''\<rparr>) = Inr (r, s')
         \<and> tag_matches s' = tag_counts (tables_of dict_AB) ''x y''
         \<and> matches_shift s' = [''B'', ''A''])"
proof -
  let ?T = "tables_of dict_AB"
  have sd: "sets_distinct ?T"
    by (rule build_sets_distinct, rule tables_of_built) code_simp
  have ca: "int (length (filter (\<lambda>w. ''a'' \<in> set (tagged ?T w)) (split (lower (strip ''x y''))))) = 2"
    and cb: "int (length (filter (\<lambda>w. ''b'' \<in> set (tagged ?T w)) (split (lower (strip ''x y''))))) = 1"
    by code_simp+
  have r1: "ranked (tag_counts ?T ''x y'') = [''b'', ''a'']"
    and r2: "ranked (tag_counts (tables_of dict_BA) ''x y'') = [''b'', ''a'']"
    and n: "strip ''x y'' \<noteq> []"
    and a: "lowercase_snippets ?T (lower ''x y'') = None"
    and b: "lowercase_names ?T (lower ''x y'') = None"
    and c: "tag_counts ?T ''x y'' \<noteq> []"
    and u: "map upper [''b'', ''a''] = [''B'', ''A'']"
    by code_simp+
  obtain r s' where s': "update_text ?T (init_app\<lparr>input_text := ''x y''\<rparr>) = Inr (r, s')"
    using update_text_succeeds by blast
  have e: "\<exists>r s'. update_text ?T (init_app\<lparr>input_text := ''x y''\<rparr>) = Inr (r, s')
         \<and> tag_matches s' = tag_counts ?T ''x y''
         \<and> matches_shift s' = [''B'', ''A'']"
  proof -
    have "\<forall>s r s'. input_text s = ''x y'' \<and> strip ''x y'' \<noteq> []
              \<and> update_text ?T s = Inr (r, s')
              \<and> lowercase_snippets ?T (lower ''x y'') = None
              \<and> lowercase_names ?T (lower ''x y'') = None
              \<and> tag_counts ?T ''x y'' \<noteq> [] \<longrightarrow>
            tag_matches s' = tag_counts ?T ''x y''
            \<and> matches_shift s' = map upper (ranked (tag_counts ?T ''x y''))"
      using tag_ranking [OF sd, of "''x y''" "''a''"] by blast
    from this [rule_format, of "init_app\<lparr>input_text := ''x y''\<rparr>" r s'] s' n a b c
    have "tag_matches s' = tag_counts ?T ''x y''
            \<and> matches_shift s' = map upper (ranked (tag_counts ?T ''x y''))"
      by simp
    with s' r1 u show ?thesis by auto
  qed
  have ka: "counter (tag_counts ?T ''x y'') ''a'' = 2"
    using tag_ranking [OF sd, of "''x y''" "''a''"] ca by simp
  have kb: "counter (tag_counts ?T ''x y'') ''b'' = 1"
    using tag_ranking [OF sd, of "''x y''" "''b''"] cb by simp
  show ?thesis using sd ka kb r1 r2 n a b c e by (intro conjI)
qed

text \<open>
  Claim C6 as stated fails where a word is repeated: with A tagged x and B tagged y, the
  input \<^verbatim>\<open>x x y\<close> counts A twice, where one increment for each distinct word gives 1,
  and so B comes before A; on \<^verbatim>\<open>x y\<close>, where both count 1, A comes first.
\<close>

theorem repeated_word_counts_again:
  "counter (tag_counts (tables_of dict_xy) ''x x y'') ''a'' = 2
   \<and> claimed_tag_counter (tables_of dict_xy) ''x x y'' ''a'' = 1
   \<and> counter (tag_counts (tables_of dict_xy) ''x x y'') ''b'' = 1
   \<and> claimed_tag_counter (tables_of dict_xy) ''x x y'' ''b'' = 1
   \<and> run_resolve dict_xy ''x x y'' = Inr ([''b'', ''a''], [''B'', ''A''])
   \<and> run_resolve dict_xy ''x y'' = Inr ([''a'', ''b''], [''A'', ''B''])"
  by code_simp

subsection \<open>The character strategy\<close>

lemma mark_fold:
  "fold (\<lambda>snippet st. (insert ch (fst st), incr (snd st) snippet)) l st =
     (if l = [] then fst st else insert ch (fst st), fold (\<lambda>snippet d. incr d snippet) l (snd st))"
  by (induction l arbitrary: st) auto

lemma char_step_charred:
  "char_step t ch (U, d) =
     (if ch \<in> U then (U, d)
      else (if charred t ch = [] then U else insert ch U,
            fold (\<lambda>snippet d. incr d snippet) (charred t ch) d))"
  by (simp add: char_step_def charred_def mark_fold split: option.splits)

lemma counter_char_fold:
  "counter (snd (fold (char_step t) cs (U, d))) e =
     counter d e + (\<Sum>c\<in>set cs - U. int (count_list (charred t c) e))"
proof (induction cs arbitrary: U d)
  case Nil
  show ?case by simp
next
  case (Cons c cs)
  let ?f = "\<lambda>c. int (count_list (charred t c) e)"
  show ?case
  proof (cases "c \<in> U")
    case True
    then have "set (c # cs) - U = set cs - U" by auto
    with True show ?thesis by (simp add: char_step_charred Cons.IH)
  next
    case False
    show ?thesis
    proof (cases "charred t c = []")
      case True
      have "set (c # cs) - U = insert c (set cs - U)" using False by auto
      moreover have "?f c = 0" using True by simp
      ultimately have "sum ?f (set (c # cs) - U) = sum ?f (set cs - U)"
        by (simp add: sum.insert_if)
      with False True show ?thesis by (simp add: char_step_charred Cons.IH)
    next
      case ne: False
      have "set (c # cs) - U = insert c (set cs - insert c U)" using False by auto
      then have "sum ?f (set (c # cs) - U) = ?f c + sum ?f (set cs - insert c U)"
        by simp
      with False ne show ?thesis
        by (simp add: char_step_charred Cons.IH counter_fold_incr)
    qed
  qed
qed

lemma char_loop_concat: "char_loop t words st = fold (char_step t) (concat words) st"
  unfolding char_loop_def by (induction words arbitrary: st) simp_all

lemma counter_char_counts:
  "counter (char_counts t raw) e =
     (\<Sum>c\<in>set (concat (split (lower raw))). int (count_list (charred t c) e))"
  by (simp add: char_counts_def char_loop_concat counter_char_fold counter_Nil)

lemma sum_indicator_card:
  "finite A \<Longrightarrow> (\<Sum>c\<in>A. int (if P c then 1 else 0)) = int (card {c \<in> A. P c})"
proof (induction A rule: finite_induct)
  case empty
  show ?case by simp
next
  case (insert x A)
  have "{c \<in> insert x A. P c} = (if P x then insert x {c \<in> A. P c} else {c \<in> A. P c})"
    by auto
  with insert show ?case by simp
qed

lemma counter_char_counts_card:
  assumes "sets_distinct t"
  shows "counter (char_counts t raw) e =
           int (card {c \<in> set (concat (split (lower raw))). e \<in> set (charred t c)})"
proof -
  have d: "\<And>c. count_list (charred t c) e = (if e \<in> set (charred t c) then 1 else 0)"
    using assms by (simp add: sets_distinct_def count_list_distinct)
  show ?thesis
    unfolding counter_char_counts d by (rule sum_indicator_card) simp
qed

text \<open>
  Claim C7. In the character strategy a character counts at most once over the whole
  input, however often it recurs in one word or in later words: the counter of an
  entry is the number of distinct characters of the input's words that the entry
  declares, so it is bounded by the number of distinct characters and is the same for
  two inputs with the same set of characters. With the entry A declaring the character
  \<^verbatim>\<open>a\<close>, the input \<^verbatim>\<open>aa aa\<close> counts A exactly once.
\<close>

theorem char_consumption:
  assumes "sets_distinct t"
  shows "counter (char_counts t raw) e =
           int (card {c \<in> set (concat (split (lower raw))). e \<in> set (charred t c)})
       \<and> counter (char_counts t raw) e \<le> int (card (set (concat (split (lower raw)))))
       \<and> (\<forall>raw'. set (concat (split (lower raw'))) = set (concat (split (lower raw))) \<longrightarrow>
              counter (char_counts t raw') e = counter (char_counts t raw) e)
       \<and> (\<forall>s r s'. input_text s = raw \<and> strip raw \<noteq> [] \<and> update_text t s = Inr (r, s')
              \<and> lowercase_snippets t (lower raw) = None \<and> lowercase_names t (lower raw) = None
              \<and> tag_counts t raw = [] \<longrightarrow>
            char_matches s' = char_counts t raw
            \<and> matches_shift s' = map upper (ranked (char_counts t raw)))"
proof (intro conjI allI impI)
  show "counter (char_counts t raw) e =
           int (card {c \<in> set (concat (split (lower raw))). e \<in> set (charred t c)})"
    by (rule counter_char_counts_card [OF assms])
  have "card {c \<in> set (concat (split (lower raw))). e \<in> set (charred t c)}
          \<le> card (set (concat (split (lower raw))))"
    by (rule card_mono) auto
  then show "counter (char_counts t raw) e \<le> int (card (set (concat (split (lower raw)))))"
    by (simp add: counter_char_counts_card [OF assms])
next
  fix raw' assume "set (concat (split (lower raw'))) = set (concat (split (lower raw)))"
  then show "counter (char_counts t raw') e = counter (char_counts t raw) e"
    by (simp add: counter_char_counts)
next
  fix s r s'
  assume "input_text s = raw \<and> strip raw \<noteq> [] \<and> update_text t s = Inr (r, s')
              \<and> lowercase_snippets t (lower raw) = None \<and> lowercase_names t (lower raw) = None
              \<and> tag_counts t raw = []"
  then have h: "strip (input_text s) \<noteq> []" "update_text t s = Inr (r, s')"
    "lowercase_snippets t (lower (input_text s)) = None"
    "lowercase_names t (lower (input_text s)) = None"
    "tag_counts t (input_text s) = []" and raw: "input_text s = raw"
    by simp_all
  note res = resolved_chars [OF h]
  show "char_matches s' = char_counts t raw" using res(4) raw by simp
  show "matches_shift s' = map upper (ranked (char_counts t raw))" using res(2) raw by simp
qed

theorem char_consumption_witness:
  "sets_distinct (tables_of dict_A)
   \<and> charred (tables_of dict_A) CHR ''a'' = [''a'']
   \<and> split (lower ''aa aa'') = [''aa'', ''aa'']
   \<and> counter (char_counts (tables_of dict_A) ''aa aa'') ''a'' = 1
   \<and> char_counts (tables_of dict_A) ''aa aa'' = [(''a'', 1)]
   \<and> set (concat (split (lower ''a''))) = set (concat (split (lower ''aa aa'')))
   \<and> counter (char_counts (tables_of dict_A) ''a'') ''a''
       = counter (char_counts (tables_of dict_A) ''aa aa'') ''a''
   \<and> strip ''aa aa'' \<noteq> []
   \<and> lowercase_snippets (tables_of dict_A) (lower ''aa aa'') = None
   \<and> lowercase_names (tables_of dict_A) (lower ''aa aa'') = None
   \<and> tag_counts (tables_of dict_A) ''aa aa'' = []
   \<and> (\<exists>r s'. update_text (tables_of dict_A) (init_app\<lparr>input_text := ''aa aa''\<rparr>) = Inr (r, s')
         \<and> char_matches s' = [(''a'', 1)] \<and> matches_shift s' = [''A''])"
proof -
  let ?T = "tables_of dict_A"
  have sd: "sets_distinct ?T"
    by (rule build_sets_distinct, rule tables_of_built) code_simp
  have ch: "charred ?T CHR ''a'' = [''a'']"
    and sp: "split (lower ''aa aa'') = [''aa'', ''aa'']"
    and cc: "char_counts ?T ''aa aa'' = [(''a'', 1)]"
    and st: "set (concat (split (lower ''a''))) = set (concat (split (lower ''aa aa'')))"
    and n: "strip ''aa aa'' \<noteq> []"
    and a: "lowercase_snippets ?T (lower ''aa aa'') = None"
    and b: "lowercase_names ?T (lower ''aa aa'') = None"
    and c: "tag_counts ?T ''aa aa'' = []"
    and u: "map upper (ranked [(''a'', 1)]) = [''A'']"
    by code_simp+
  have cd: "card {c \<in> set (concat (split (lower ''aa aa''))). ''a'' \<in> set (charred ?T c)} = 1"
  proof -
    have "{c \<in> set (concat (split (lower ''aa aa''))). ''a'' \<in> set (charred ?T c)} = {CHR ''a''}"
      by (auto simp: sp ch)
    then show ?thesis by simp
  qed
  note cons = char_consumption [OF sd, of "''aa aa''" "''a''"]
  have k1: "counter (char_counts ?T ''aa aa'') ''a'' = 1" using cons cd by simp
  have k2: "counter (char_counts ?T ''a'') ''a'' = counter (char_counts ?T ''aa aa'') ''a''"
    using cons st by blast
  obtain r s' where s': "update_text ?T (init_app\<lparr>input_text := ''aa aa''\<rparr>) = Inr (r, s')"
    using update_text_succeeds by blast
  have "\<forall>s r s'. input_text s = ''aa aa'' \<and> strip ''aa aa'' \<noteq> []
              \<and> update_text ?T s = Inr (r, s')
              \<and> lowercase_snippets ?T (lower ''aa aa'') = None
              \<and> lowercase_names ?T (lower ''aa aa'') = None
              \<and> tag_counts ?T ''aa aa'' = [] \<longrightarrow>
            char_matches s' = char_counts ?T ''aa aa''
            \<and> matches_shift s' = map upper (ranked (char_counts ?T ''aa aa''))"
    using cons by blast
  from this [rule_format, of "init_app\<lparr>input_text := ''aa aa''\<rparr>" r s'] s' n a b c
  have "char_matches s' = char_counts ?T ''aa aa''
            \<and> matches_shift s' = map upper (ranked (char_counts ?T ''aa aa''))"
    by simp
  with s' cc u have e: "\<exists>r s'. update_text ?T (init_app\<lparr>input_text := ''aa aa''\<rparr>) = Inr (r, s')
         \<and> char_matches s' = [(''a'', 1)] \<and> matches_shift s' = [''A'']"
    by auto
  show ?thesis using sd ch sp k1 cc st k2 n a b c e by (intro conjI)
qed

subsection \<open>The candidates of a built table\<close>

lemma lower_char_idem: "lower_char (lower_char c) = lower_char c"
proof (cases "is_upper_char c")
  case True
  then show ?thesis
    by (auto simp: is_upper_char_def lower_char_def upper_letters_def lower_letters_def)
next
  case False
  then have "map_of (zip upper_letters lower_letters) c = None"
    by (simp add: is_upper_char_def map_of_eq_None_iff upper_letters_def lower_letters_def)
  then show ?thesis by (simp add: lower_char_def)
qed

lemma lower_idem: "lower (lower s) = lower s"
  by (simp add: lower_def lower_char_idem)

text \<open>The name that \<^verbatim>\<open>add_entry\<close> registers, when it does not raise.\<close>

lemma add_entry_names:
  assumes "add_entry t (word, data) = Inr t'"
  shows "\<exists>nm. name data = Some nm
           \<and> lowercase_names t' = (lowercase_names t)(lower nm \<mapsto> lower word)"
  using assms
  by (auto simp: add_entry_def Let_def split: option.splits if_splits)

lemma build_loop_words:
  "build_loop t items = Inr t' \<Longrightarrow>
   \<forall>k w. lowercase_snippets t k = Some w \<longrightarrow> w \<in> K \<and> lower w = k \<Longrightarrow>
   \<forall>k w. lowercase_snippets t' k = Some w \<longrightarrow> w \<in> K \<union> fst ` set items \<and> lower w = k"
proof (induction items arbitrary: t K)
  case Nil
  then show ?case by simp
next
  case (Cons item items)
  obtain word data where item: "item = (word, data)" by (cases item)
  from Cons.prems(1) obtain t1 where t1: "add_entry t (word, data) = Inr t1"
    and rest: "build_loop t1 items = Inr t'"
    by (auto simp: item split: sum.splits)
  have "\<forall>k w. lowercase_snippets t1 k = Some w \<longrightarrow> w \<in> insert word K \<and> lower w = k"
    using Cons.prems(2) by (auto simp: add_entry_tables(1) [OF t1])
  from Cons.IH [OF rest this] show ?case by (simp add: item)
qed

lemma build_loop_names:
  "build_loop t items = Inr t' \<Longrightarrow>
   \<forall>k w. lowercase_names t k = Some w \<longrightarrow>
      (\<exists>item\<in>D. \<exists>nm. name (snd item) = Some nm \<and> lower nm = k \<and> w = lower (fst item)) \<Longrightarrow>
   \<forall>k w. lowercase_names t' k = Some w \<longrightarrow>
      (\<exists>item\<in>D \<union> set items. \<exists>nm. name (snd item) = Some nm \<and> lower nm = k \<and> w = lower (fst item))"
proof (induction items arbitrary: t D)
  case Nil
  then show ?case by simp
next
  case (Cons item items)
  obtain word data where item: "item = (word, data)" by (cases item)
  from Cons.prems(1) obtain t1 where t1: "add_entry t (word, data) = Inr t1"
    and rest: "build_loop t1 items = Inr t'"
    by (auto simp: item split: sum.splits)
  from add_entry_names [OF t1] obtain nm where nm: "name data = Some nm"
    and ln: "lowercase_names t1 = (lowercase_names t)(lower nm \<mapsto> lower word)"
    by blast
  have "\<forall>k w. lowercase_names t1 k = Some w \<longrightarrow>
      (\<exists>item\<in>insert (word, data) D. \<exists>nm. name (snd item) = Some nm \<and> lower nm = k
          \<and> w = lower (fst item))"
  proof (intro allI impI)
    fix k w assume a: "lowercase_names t1 k = Some w"
    show "\<exists>item\<in>insert (word, data) D. \<exists>nm. name (snd item) = Some nm \<and> lower nm = k
          \<and> w = lower (fst item)"
    proof (cases "k = lower nm")
      case True
      with a ln have "w = lower word" by simp
      with True nm show ?thesis by auto
    next
      case False
      with a ln have "lowercase_names t k = Some w" by simp
      with Cons.prems(2) show ?thesis by blast
    qed
  qed
  from Cons.IH [OF rest this] show ?case by (simp add: item)
qed

lemma built_words:
  assumes "build_dictionary d = Inr t" and "lowercase_snippets t k = Some w"
  shows "w \<in> fst ` set d \<and> lower w = k"
proof -
  have "build_loop empty_tables d = Inr t" using assms(1) by (simp add: build_dictionary_def)
  from build_loop_words [OF this, of "{}"] assms(2) show ?thesis
    by (simp add: empty_tables_def)
qed

lemma built_names:
  assumes "build_dictionary d = Inr t" and "lowercase_names t k = Some w"
  shows "\<exists>item\<in>set d. \<exists>nm. name (snd item) = Some nm \<and> lower nm = k \<and> w = lower (fst item)"
proof -
  have "build_loop empty_tables d = Inr t" using assms(1) by (simp add: build_dictionary_def)
  from build_loop_names [OF this, of "{}"] assms(2) show ?thesis
    by (simp add: empty_tables_def)
qed

lemma built_members:
  assumes "build_dictionary d = Inr t"
    and "c \<in> set (tagged t w) \<or> c \<in> set (charred t ch)"
  shows "\<exists>word\<in>fst ` set d. c = lower word"
proof -
  have b: "build_loop empty_tables d = Inr t" using assms(1) by (simp add: build_dictionary_def)
  have "\<exists>k ws. (tags_tab t k = Some ws \<or> chars_tab t k = Some ws) \<and> c \<in> set ws"
    using assms(2)
  proof
    assume "c \<in> set (tagged t w)"
    then show ?thesis by (cases "tags_tab t w") (auto simp: tagged_def)
  next
    assume "c \<in> set (charred t ch)"
    then show ?thesis by (cases "chars_tab t [ch]") (auto simp: charred_def)
  qed
  then obtain k ws where k: "tags_tab t k = Some ws \<or> chars_tab t k = Some ws"
    and c: "c \<in> set ws"
    by blast
  have "\<exists>w\<in>{} \<union> fst ` set d. lowercase_snippets t c = Some w \<and> lower w = c"
  proof (rule build_loop_refs [OF b _ k c])
    fix k ws x
    assume "tags_tab empty_tables k = Some ws \<or> chars_tab empty_tables k = Some ws"
    then show "\<exists>w\<in>{}. lowercase_snippets empty_tables x = Some w \<and> lower w = x"
      by (simp add: empty_tables_def)
  qed
  then show ?thesis by auto
qed

lemma keys_char_fold:
  "set (map fst (snd (fold (char_step t) cs (U, d))))
     \<subseteq> set (map fst d) \<union> (\<Union>c\<in>set cs. set (charred t c))"
proof (induction cs arbitrary: U d)
  case Nil
  show ?case by simp
next
  case (Cons c cs)
  show ?case
  proof (cases "c \<in> U")
    case True
    with Cons.IH [of U d] show ?thesis by (auto simp: char_step_charred)
  next
    case False
    let ?d1 = "fold (\<lambda>snippet d. incr d snippet) (charred t c) d"
    let ?U1 = "if charred t c = [] then U else insert c U"
    have "set (map fst ?d1) = set (charred t c) \<union> set (map fst d)" by (rule keys_fold_incr)
    with Cons.IH [of ?U1 ?d1] False show ?thesis
      by (auto simp: char_step_charred simp del: set_map)
  qed
qed

lemma keys_char_counts:
  "set (map fst (char_counts t raw)) \<subseteq> (\<Union>c\<in>set (concat (split (lower raw))). set (charred t c))"
  using keys_char_fold [of t "concat (split (lower raw))" "{}" "[]"]
  by (simp add: char_counts_def char_loop_concat del: set_map)

text \<open>The counted candidates of a built table are lower-cased entry words.\<close>

lemma built_ranked:
  assumes "build_dictionary d = Inr t"
    and "c \<in> set (ranked (tag_counts t raw)) \<or> c \<in> set (ranked (char_counts t raw))"
  shows "\<exists>word\<in>fst ` set d. c = lower word"
  using assms(2)
proof
  assume "c \<in> set (ranked (tag_counts t raw))"
  then have "c \<in> set (map fst (tag_counts t raw))" using ranked_subset by blast
  then obtain w where "c \<in> set (tagged t w)" unfolding keys_tag_counts by blast
  then show ?thesis using built_members [OF assms(1)] by blast
next
  assume "c \<in> set (ranked (char_counts t raw))"
  then have "c \<in> set (map fst (char_counts t raw))" using ranked_subset by blast
  then obtain ch where "c \<in> set (charred t ch)" using keys_char_counts by blast
  then show ?thesis using built_members [OF assms(1)] by blast
qed

subsection \<open>The casing of the matches\<close>

text \<open>
  Claim C3, as amended. For every candidate of every strategy the shifted form is the
  upper case of the stored candidate, and the primary form is that same upper case
  when the first character of the raw input is an upper-case letter. Otherwise the two
  exact strategies leave the stored candidate as it is (they have no lower-case branch),
  and the tag and the character strategy lower it when \<^verbatim>\<open>islower\<close> holds of the raw
  input and leave it as it is otherwise. In the tables that \<^verbatim>\<open>build_dictionary\<close>
  builds, the stored candidate of a word match is the entry's word in its stored case,
  the stored candidate of a name match is the lower-cased word of an entry with that
  name, and the counted candidates are lower-cased entry words; so there, in every
  strategy, the primary form is the upper case of the stored candidate on a leading
  upper-case letter and the stored candidate unchanged otherwise.
\<close>

theorem case_adaptation:
  assumes "strip (input_text s) \<noteq> []" and "update_text t s = Inr (r, s')"
  shows "(case lowercase_snippets t (lower (input_text s)) of
            Some w \<Rightarrow>
              matches_shift s' = [upper w]
              \<and> matches s' = [if is_upper_char (hd (input_text s)) then upper w else w]
          | None \<Rightarrow>
             (case lowercase_names t (lower (input_text s)) of
                Some w \<Rightarrow>
                  matches_shift s' = [upper w]
                  \<and> matches s' = [if is_upper_char (hd (input_text s)) then upper w else w]
              | None \<Rightarrow>
                 (let cs = (if tag_counts t (input_text s) \<noteq> []
                            then ranked (tag_counts t (input_text s))
                            else ranked (char_counts t (input_text s)))
                  in matches_shift s' = map upper cs
                     \<and> matches s' =
                         map (\<lambda>c. if is_upper_char (hd (input_text s)) then upper c
                                   else if islower (input_text s) then lower c else c) cs)))
         \<and> (is_upper_char (hd (input_text s)) \<longrightarrow> matches s' = matches_shift s')
         \<and> (\<forall>d. build_dictionary d = Inr t \<longrightarrow>
              (case lowercase_snippets t (lower (input_text s)) of
                 Some w \<Rightarrow>
                   w \<in> fst ` set d \<and> lower w = lower (input_text s)
                   \<and> matches_shift s' = [upper w]
                   \<and> matches s' = [if is_upper_char (hd (input_text s)) then upper w else w]
               | None \<Rightarrow>
                  (case lowercase_names t (lower (input_text s)) of
                     Some w \<Rightarrow>
                       (\<exists>item\<in>set d. \<exists>nm. name (snd item) = Some nm
                           \<and> lower nm = lower (input_text s) \<and> w = lower (fst item))
                       \<and> matches_shift s' = [upper w]
                       \<and> matches s' = [if is_upper_char (hd (input_text s)) then upper w else w]
                   | None \<Rightarrow>
                      (let cs = (if tag_counts t (input_text s) \<noteq> []
                                 then ranked (tag_counts t (input_text s))
                                 else ranked (char_counts t (input_text s)))
                       in (\<forall>c\<in>set cs. \<exists>word\<in>fst ` set d. c = lower word)
                          \<and> matches_shift s' = map upper cs
                          \<and> matches s' =
                              map (\<lambda>c. if is_upper_char (hd (input_text s)) then upper c else c)
                                cs))))"
proof (cases "lowercase_snippets t (lower (input_text s))")
  case (Some w)
  note h = resolved_exact [OF assms Some]
  show ?thesis using built_words [OF _ Some] by (auto simp: Some h(1,2))
next
  case None
  show ?thesis
  proof (cases "lowercase_names t (lower (input_text s))")
    case (Some w)
    note h = resolved_name [OF assms None Some]
    show ?thesis using built_names [OF _ Some] by (simp add: None Some h(1,2))
  next
    case n: None
    let ?cs = "if tag_counts t (input_text s) \<noteq> []
               then ranked (tag_counts t (input_text s))
               else ranked (char_counts t (input_text s))"
    have ms: "matches_shift s' = map upper ?cs"
      and m: "matches s' = map (cased (is_upper_char (hd (input_text s))) (islower (input_text s))) ?cs"
    proof -
      show "matches_shift s' = map upper ?cs"
      proof (cases "tag_counts t (input_text s) = []")
        case True
        then show ?thesis using resolved_chars(2) [OF assms None n True] by simp
      next
        case False
        then show ?thesis using resolved_tags(2) [OF assms None n False] by simp
      qed
      show "matches s' = map (cased (is_upper_char (hd (input_text s))) (islower (input_text s))) ?cs"
      proof (cases "tag_counts t (input_text s) = []")
        case True
        then show ?thesis using resolved_chars(1) [OF assms None n True] by simp
      next
        case False
        then show ?thesis using resolved_tags(1) [OF assms None n False] by simp
      qed
    qed
    have prov: "\<And>d c. build_dictionary d = Inr t \<Longrightarrow> c \<in> set ?cs \<Longrightarrow>
                  \<exists>word\<in>fst ` set d. c = lower word"
    proof -
      fix d c assume b: "build_dictionary d = Inr t" and c: "c \<in> set ?cs"
      from c have "c \<in> set (ranked (tag_counts t (input_text s)))
                 \<or> c \<in> set (ranked (char_counts t (input_text s)))"
        by (simp split: if_splits)
      from built_ranked [OF b this] show "\<exists>word\<in>fst ` set d. c = lower word" .
    qed
    have same: "\<And>d. build_dictionary d = Inr t \<Longrightarrow>
        map (cased (is_upper_char (hd (input_text s))) (islower (input_text s))) ?cs =
        map (\<lambda>c. if is_upper_char (hd (input_text s)) then upper c else c) ?cs"
    proof (rule map_cong [OF refl])
      fix d c assume "build_dictionary d = Inr t" "c \<in> set ?cs"
      from prov [OF this] obtain word where "c = lower word" by blast
      then have "lower c = c" by (simp add: lower_idem)
      then show "cased (is_upper_char (hd (input_text s))) (islower (input_text s)) c =
             (if is_upper_char (hd (input_text s)) then upper c else c)"
        by (simp add: cased_def)
    qed
    have g: "matches s' = map (\<lambda>c. if is_upper_char (hd (input_text s)) then upper c
                                   else if islower (input_text s) then lower c else c) ?cs"
      using m by (simp add: cased_def [abs_def])
    have up: "is_upper_char (hd (input_text s)) \<longrightarrow> matches s' = matches_shift s'"
      using m ms by (simp add: cased_def [abs_def])
    have built: "\<forall>d. build_dictionary d = Inr t \<longrightarrow>
        (\<forall>c\<in>set ?cs. \<exists>word\<in>fst ` set d. c = lower word)
        \<and> matches_shift s' = map upper ?cs
        \<and> matches s' = map (\<lambda>c. if is_upper_char (hd (input_text s)) then upper c else c) ?cs"
      using prov same m ms by auto
    show ?thesis
      unfolding None n option.case Let_def
      using ms g up built by blast
  qed
qed

theorem case_adaptation_witness:
  "build_dictionary dict_Pi = Inr (tables_of dict_Pi)
   \<and> strip ''pi'' \<noteq> []
   \<and> lowercase_snippets (tables_of dict_Pi) (lower ''pi'') = Some ''Pi''
   \<and> ''Pi'' \<in> fst ` set dict_Pi
   \<and> (\<exists>r s'. update_text (tables_of dict_Pi) (init_app\<lparr>input_text := ''pi''\<rparr>) = Inr (r, s')
          \<and> matches s' = [''Pi''] \<and> matches_shift s' = [''PI''])
   \<and> strip ''Circle'' \<noteq> []
   \<and> is_upper_char (hd ''Circle'')
   \<and> lowercase_snippets (tables_of dict_Pi) (lower ''Circle'') = None
   \<and> lowercase_names (tables_of dict_Pi) (lower ''Circle'') = Some ''pi''
   \<and> ''pi'' = lower ''Pi''
   \<and> (\<exists>item\<in>set dict_Pi. \<exists>nm. name (snd item) = Some nm
          \<and> lower nm = lower ''Circle'' \<and> ''pi'' = lower (fst item))
   \<and> (\<exists>r s'. update_text (tables_of dict_Pi) (init_app\<lparr>input_text := ''Circle''\<rparr>) = Inr (r, s')
          \<and> matches s' = [''PI''] \<and> matches_shift s' = [''PI''])
   \<and> strip ''circle'' \<noteq> []
   \<and> (\<exists>r s'. update_text (tables_of dict_Pi) (init_app\<lparr>input_text := ''circle''\<rparr>) = Inr (r, s')
          \<and> matches s' = [''pi''] \<and> matches_shift s' = [''PI''])
   \<and> strip ''x y'' \<noteq> []
   \<and> (\<exists>r s'. update_text (tables_of dict_AB) (init_app\<lparr>input_text := ''x y''\<rparr>) = Inr (r, s')
          \<and> matches s' = [''b'', ''a''] \<and> matches_shift s' = [''B'', ''A''])"
proof -
  let ?P = "tables_of dict_Pi" and ?T = "tables_of dict_AB"
  have bp: "build_dictionary dict_Pi = Inr ?P" by (rule tables_of_built) code_simp
  have n1: "strip ''pi'' \<noteq> []" and n2: "strip ''Circle'' \<noteq> []"
    and n3: "strip ''circle'' \<noteq> []" and n4: "strip ''x y'' \<noteq> []"
    by code_simp+
  have a1: "lowercase_snippets ?P (lower ''pi'') = Some ''Pi''"
    and a3: "\<not> is_upper_char (hd ''pi'')" and a4: "upper ''Pi'' = ''PI''"
    and a5: "''Pi'' \<in> fst ` set dict_Pi"
    by code_simp+
  have b1: "lowercase_snippets ?P (lower ''Circle'') = None"
    and b2: "lowercase_names ?P (lower ''Circle'') = Some ''pi''"
    and b3: "is_upper_char (hd ''Circle'')" and b4: "upper ''pi'' = ''PI''"
    and b5: "''pi'' = lower ''Pi''"
    by code_simp+
  have c1: "lowercase_snippets ?P (lower ''circle'') = None"
    and c2: "lowercase_names ?P (lower ''circle'') = Some ''pi''"
    and c3: "\<not> is_upper_char (hd ''circle'')"
    by code_simp+
  have d1: "lowercase_snippets ?T (lower ''x y'') = None"
    and d2: "lowercase_names ?T (lower ''x y'') = None"
    and d3: "tag_counts ?T ''x y'' \<noteq> []"
    and d4: "map upper (ranked (tag_counts ?T ''x y'')) = [''B'', ''A'']"
    and d5: "\<not> is_upper_char (hd ''x y'')" and d6: "islower ''x y''"
    and d7: "map lower (ranked (tag_counts ?T ''x y'')) = [''b'', ''a'']"
    by code_simp+
  obtain r1 s1 where s1: "update_text ?P (init_app\<lparr>input_text := ''pi''\<rparr>) = Inr (r1, s1)"
    using update_text_succeeds by blast
  obtain r2 s2 where s2: "update_text ?P (init_app\<lparr>input_text := ''Circle''\<rparr>) = Inr (r2, s2)"
    using update_text_succeeds by blast
  obtain r3 s3 where s3: "update_text ?P (init_app\<lparr>input_text := ''circle''\<rparr>) = Inr (r3, s3)"
    using update_text_succeeds by blast
  obtain r4 s4 where s4: "update_text ?T (init_app\<lparr>input_text := ''x y''\<rparr>) = Inr (r4, s4)"
    using update_text_succeeds by blast
  have p1: "matches s1 = [''Pi''] \<and> matches_shift s1 = [''PI'']"
    using case_adaptation [OF _ s1] n1 a1 a3 a4 by simp
  have p2: "matches s2 = [''PI''] \<and> matches_shift s2 = [''PI'']"
    using case_adaptation [OF _ s2] n2 b1 b2 b3 b4 by simp
  have q2: "\<exists>item\<in>set dict_Pi. \<exists>nm. name (snd item) = Some nm
          \<and> lower nm = lower ''Circle'' \<and> ''pi'' = lower (fst item)"
    using case_adaptation [OF _ s2] n2 bp b1 b2 by simp
  have p3: "matches s3 = [''pi''] \<and> matches_shift s3 = [''PI'']"
    using case_adaptation [OF _ s3] n3 c1 c2 c3 b4 by simp
  have p4: "matches s4 = [''b'', ''a''] \<and> matches_shift s4 = [''B'', ''A'']"
    using case_adaptation [OF _ s4] n4 d1 d2 d3 d4 d5 d6 d7 by simp
  from s1 p1 have e1: "\<exists>r s'. update_text ?P (init_app\<lparr>input_text := ''pi''\<rparr>) = Inr (r, s')
          \<and> matches s' = [''Pi''] \<and> matches_shift s' = [''PI'']" by blast
  from s2 p2 have e2: "\<exists>r s'. update_text ?P (init_app\<lparr>input_text := ''Circle''\<rparr>) = Inr (r, s')
          \<and> matches s' = [''PI''] \<and> matches_shift s' = [''PI'']" by blast
  from s3 p3 have e3: "\<exists>r s'. update_text ?P (init_app\<lparr>input_text := ''circle''\<rparr>) = Inr (r, s')
          \<and> matches s' = [''pi''] \<and> matches_shift s' = [''PI'']" by blast
  from s4 p4 have e4: "\<exists>r s'. update_text ?T (init_app\<lparr>input_text := ''x y''\<rparr>) = Inr (r, s')
          \<and> matches s' = [''b'', ''a''] \<and> matches_shift s' = [''B'', ''A'']" by blast
  show ?thesis
    using bp n1 a1 a5 e1 n2 b3 b1 b2 b5 q2 e2 n3 e3 n4 e4 by (intro conjI)
qed

text \<open>
  Claim C3 as stated fails in two ways. On a word match the input \<^verbatim>\<open>pi\<close> has no
  upper-case letter, and the match is \<^verbatim>\<open>Pi\<close> in its stored case, not its lower case.
  On a name match and on a tag match the input has an upper-case letter that is not the
  first, and the match is the lower-cased \<^verbatim>\<open>pi\<close>, not the word \<^verbatim>\<open>Pi\<close> in its stored
  case.
\<close>

theorem exact_match_keeps_stored_case:
  "run_resolve dict_Pi ''pi'' = Inr ([''Pi''], [''PI''])
   \<and> claimed_primary ''pi'' ''Pi'' = ''pi''
   \<and> run_resolve dict_Pi ''pi'' \<noteq> Inr ([claimed_primary ''pi'' ''Pi''], [upper ''Pi''])
   \<and> run_resolve dict_Pi ''cIrcle'' = Inr ([''pi''], [''PI''])
   \<and> claimed_primary ''cIrcle'' ''Pi'' = ''Pi''
   \<and> run_resolve dict_Pi ''cIrcle'' \<noteq> Inr ([claimed_primary ''cIrcle'' ''Pi''], [upper ''Pi''])
   \<and> run_resolve dict_Pi ''gReek'' = Inr ([''pi''], [''PI''])
   \<and> claimed_primary ''gReek'' ''Pi'' = ''Pi''
   \<and> run_resolve dict_Pi ''gReek'' \<noteq> Inr ([claimed_primary ''gReek'' ''Pi''], [upper ''Pi''])"
  by code_simp

end
